theory Spec2Isabelle
  imports Main "HOL-Library.Char_ord" "HOL-Library.List_Lexorder" "HOL-Library.Sublist"
begin

text \<open>
  A shallow embedding of the XML node of \<^verbatim>\<open>xmpp/xmpp_stanza.hpp\<close> and its
  implementation: \<^verbatim>\<open>xml_escape\<close>, \<^verbatim>\<open>sanitize\<close>, the class \<^verbatim>\<open>XmlNode\<close> and the
  scoped builder \<^verbatim>\<open>XmlSubNode\<close>. Strings and the attribute map are values; nodes are
  objects of a heap, so that the parent pointers, the ownership of children and the
  freshness of copies can be stated.
\<close>

section \<open>Strings\<close>

text \<open>
  A \<^verbatim>\<open>std::string\<close> is a byte sequence: \<^typ>\<open>string\<close>. Its ordering
  (\<^verbatim>\<open>operator<\<close>, used by \<^verbatim>\<open>std::map\<close>) compares bytes as unsigned values,
  lexicographically, a proper prefix being smaller: the order of \<open>Char_ord\<close> and
  \<open>List_Lexorder\<close>.
\<close>

text \<open>
  \<^verbatim>\<open>s.data()\<close> handed to a function that takes a \<^verbatim>\<open>const char*\<close>: the callee sees
  the bytes before the first NUL.
\<close>

definition c_str :: "string \<Rightarrow> string" where
  "c_str s = takeWhile (\<lambda>c. c \<noteq> CHR 0x00) s"

text \<open>
  \<^verbatim>\<open>s.rfind(c)\<close>: the greatest position holding \<open>c\<close>; \<open>None\<close> stands for
  \<^verbatim>\<open>std::string::npos\<close>. The scan runs from the last position down to the first.
\<close>

fun rfind_from :: "string \<Rightarrow> char \<Rightarrow> nat \<Rightarrow> nat option" where
  "rfind_from s c 0 = None"
| "rfind_from s c (Suc i) = (if s ! i = c then Some i else rfind_from s c i)"

definition rfind :: "string \<Rightarrow> char \<Rightarrow> nat option" where
  "rfind s c = rfind_from s c (length s)"

text \<open>
  \<^verbatim>\<open>s.substr(pos)\<close> and \<^verbatim>\<open>s.substr(pos, n)\<close>. Both throw when \<open>pos\<close> exceeds the
  size; the constructor below calls them with \<open>pos \<le> size\<close> only (a position found by
  \<open>rfind\<close>, and its successor).
\<close>

definition substr_from :: "string \<Rightarrow> nat \<Rightarrow> string" where
  "substr_from s pos = drop pos s"

definition substr :: "string \<Rightarrow> nat \<Rightarrow> nat \<Rightarrow> string" where
  "substr s pos n = take n (drop pos s)"

section \<open>The attribute map\<close>

text \<open>
  \<^verbatim>\<open>std::map<std::string, std::string>\<close>: unique keys, iterated in ascending key
  order. The model is the list of entries in iteration order, strictly ascending in the
  keys; \<^verbatim>\<open>m[k] = v\<close> inserts or overwrites, \<^verbatim>\<open>m.erase(k)\<close> removes the entry of
  \<open>k\<close> and returns how many entries it removed, \<^verbatim>\<open>m.at(k)\<close> looks \<open>k\<close> up
  (\<open>None\<close>: it throws \<^verbatim>\<open>std::out_of_range\<close>).
\<close>

type_synonym attr_list = "(string \<times> string) list"

fun map_insert_entry :: "string \<Rightarrow> string \<Rightarrow> attr_list \<Rightarrow> attr_list" where
  "map_insert_entry k v [] = [(k, v)]"
| "map_insert_entry k v ((k', v') # xs) =
     (if k < k' then (k, v) # (k', v') # xs
      else if k = k' then (k, v) # xs
      else (k', v') # map_insert_entry k v xs)"

fun map_erase_entry :: "string \<Rightarrow> attr_list \<Rightarrow> attr_list" where
  "map_erase_entry k [] = []"
| "map_erase_entry k ((k', v') # xs) =
     (if k = k' then xs else (k', v') # map_erase_entry k xs)"

typedef attr_map = "{xs :: attr_list. sorted_wrt (<) (map fst xs)}"
  morphisms entries Abs_attr_map
  by (rule exI [of _ "[]"]) simp

setup_lifting type_definition_attr_map

lift_definition map_empty :: attr_map is "[]"
  by simp

lift_definition map_assign :: "attr_map \<Rightarrow> string \<Rightarrow> string \<Rightarrow> attr_map"
  is "\<lambda>xs k v. map_insert_entry k v xs"
proof -
  fix xs :: attr_list and k v :: string
  have mem: "x \<in> set (map_insert_entry k v ys) \<Longrightarrow> x = (k, v) \<or> x \<in> set ys" for x ys
    by (induction ys) (auto split: if_splits)
  assume "sorted_wrt (<) (map fst xs)"
  then show "sorted_wrt (<) (map fst (map_insert_entry k v xs))"
  proof (induction xs)
    case Nil
    show ?case by simp
  next
    case (Cons e xs)
    obtain k' v' where e: "e = (k', v')" by (cases e)
    from Cons.prems e have above: "\<forall>x\<in>set xs. k' < fst x" and tl: "sorted_wrt (<) (map fst xs)"
      by simp_all
    consider "k < k'" | "k = k'" | "k' < k" by (rule linorder_cases)
    then show ?case
    proof cases
      case 1
      with above have "\<forall>x\<in>set xs. k < fst x" by (auto intro: less_trans)
      with 1 above tl e show ?thesis by simp
    next
      case 2
      with above tl e show ?thesis by simp
    next
      case 3
      have "\<forall>x\<in>set (map_insert_entry k v xs). k' < fst x"
      proof
        fix x assume "x \<in> set (map_insert_entry k v xs)"
        then have "x = (k, v) \<or> x \<in> set xs" by (rule mem)
        with 3 above show "k' < fst x" by auto
      qed
      moreover from 3 have "\<not> k < k'" "k \<noteq> k'" by auto
      ultimately show ?thesis using Cons.IH [OF tl] e by simp
    qed
  qed
qed

lift_definition map_erase_key :: "attr_map \<Rightarrow> string \<Rightarrow> attr_map"
  is "\<lambda>xs k. map_erase_entry k xs"
proof -
  fix xs :: attr_list and k :: string
  have mem: "x \<in> set (map_erase_entry k ys) \<Longrightarrow> x \<in> set ys" for x ys
    by (induction ys) (auto split: if_splits)
  assume "sorted_wrt (<) (map fst xs)"
  then show "sorted_wrt (<) (map fst (map_erase_entry k xs))"
  proof (induction xs)
    case Nil
    show ?case by simp
  next
    case (Cons e xs)
    then have "\<forall>x\<in>set (map_erase_entry k xs). fst e < fst x"
      using mem by auto
    with Cons show ?case by (cases e) simp
  qed
qed

definition map_at :: "attr_map \<Rightarrow> string \<Rightarrow> string option" where
  "map_at m k = map_of (entries m) k"

text \<open>\<^verbatim>\<open>m.erase(k)\<close>: the number of entries removed, and the map afterwards.\<close>

definition map_erase :: "attr_map \<Rightarrow> string \<Rightarrow> nat \<times> attr_map" where
  "map_erase m k = (length (entries m) - length (entries (map_erase_key m k)), map_erase_key m k)"

section \<open>Escaping and sanitizing\<close>

text \<open>
  \<^verbatim>\<open>xml_escape\<close>: the loop over the positions of \<open>data\<close>, appending to \<open>res\<close>; the
  \<^verbatim>\<open>switch\<close> is the chain of tests, in the order of its cases.
\<close>

fun xml_escape_loop :: "string \<Rightarrow> string \<Rightarrow> string" where
  "xml_escape_loop res [] = res"
| "xml_escape_loop res (c # data) =
     xml_escape_loop
       (if c = CHR ''&'' then res @ ''&amp;''
        else if c = CHR ''<'' then res @ ''&lt;''
        else if c = CHR ''>'' then res @ ''&gt;''
        else if c = CHR 0x22 then res @ ''&quot;''
        else if c = CHR 0x27 then res @ ''&apos;''
        else res @ [c])
       data"

definition xml_escape :: "string \<Rightarrow> string" where
  "xml_escape data = xml_escape_loop [] data"

text \<open>
  The three functions of \<^verbatim>\<open>utils/encoding.hpp\<close> that \<^verbatim>\<open>sanitize\<close> calls are not
  part of the sources: they are parameters of the model.
\<close>

record utils =
  is_valid_utf8 :: "string \<Rightarrow> bool"
  remove_invalid_xml_chars :: "string \<Rightarrow> string"
  convert_to_utf8 :: "string \<Rightarrow> string \<Rightarrow> string"

definition sanitize :: "utils \<Rightarrow> string \<Rightarrow> string \<Rightarrow> string" where
  "sanitize U data encoding =
     (if is_valid_utf8 U (c_str data)
      then xml_escape (remove_invalid_xml_chars U data)
      else xml_escape (remove_invalid_xml_chars U (convert_to_utf8 U data (c_str encoding))))"

text \<open>The default argument of \<^verbatim>\<open>sanitize\<close> in the header.\<close>

definition default_encoding :: string where
  "default_encoding = ''ISO-8859-1''"

text \<open>
  Modelled from the spec: \<^verbatim>\<open>utils::is_valid_utf8\<close>, whose code is not part of the
  sources. The spec: "validate whether the input is well-formed UTF-8". A lead byte
  \<open>C2..DF\<close>, \<open>E0..EF\<close> or \<open>F0..F4\<close> is followed by one, two or three continuation
  bytes \<open>80..BF\<close>; the spec fixes no finer rule.
\<close>

definition byte :: "char \<Rightarrow> nat" where
  "byte c = of_char c"

fun utf8_well_formed :: "string \<Rightarrow> bool" where
  "utf8_well_formed [] = True"
| "utf8_well_formed (b # bs) =
     (let n = (if byte b < 0x80 then Some 0
               else if 0xC2 \<le> byte b \<and> byte b \<le> 0xDF then Some 1
               else if 0xE0 \<le> byte b \<and> byte b \<le> 0xEF then Some 2
               else if 0xF0 \<le> byte b \<and> byte b \<le> 0xF4 then Some (3::nat)
               else None)
      in case n of
           None \<Rightarrow> False
         | Some k \<Rightarrow> k \<le> length bs
                      \<and> list_all (\<lambda>c. 0x80 \<le> byte c \<and> byte c \<le> 0xBF) (take k bs)
                      \<and> utf8_well_formed (drop k bs))"

definition spec_is_valid_utf8 :: "string \<Rightarrow> bool" where
  "spec_is_valid_utf8 s = utf8_well_formed s"

text \<open>
  Modelled from the spec: \<^verbatim>\<open>utils::remove_invalid_xml_chars\<close>, whose code is not part of
  the sources. The spec: "strip characters forbidden by the XML 1.0 character grammar
  (most control characters below U+0020 except tab/newline/carriage-return, plus a few
  disallowed ranges)". On the bytes of UTF-8 text: a byte below \<open>20\<close> other than \<open>09\<close>,
  \<open>0A\<close>, \<open>0D\<close> is dropped, and so are the encodings of U+FFFE and U+FFFF
  (\<open>EF BF BE\<close>, \<open>EF BF BF\<close>) and of the surrogates U+D800..U+DFFF (\<open>ED A0..BF xx\<close>).
\<close>

fun strip_xml_bytes :: "string \<Rightarrow> string" where
  "strip_xml_bytes [] = []"
| "strip_xml_bytes (b # bs) =
     (if byte b < 0x20 \<and> byte b \<noteq> 0x09 \<and> byte b \<noteq> 0x0A \<and> byte b \<noteq> 0x0D
        then strip_xml_bytes bs
      else if byte b = 0xEF \<and> (map byte (take 2 bs) = [0xBF, 0xBE] \<or> map byte (take 2 bs) = [0xBF, 0xBF])
        then strip_xml_bytes (drop 2 bs)
      else if byte b = 0xED \<and> (case bs of [] \<Rightarrow> False | c # _ \<Rightarrow> 0xA0 \<le> byte c)
        then strip_xml_bytes (drop 2 bs)
      else b # strip_xml_bytes bs)"

definition spec_remove_invalid_xml_chars :: "string \<Rightarrow> string" where
  "spec_remove_invalid_xml_chars s = strip_xml_bytes s"

text \<open>
  Modelled from the spec: \<^verbatim>\<open>utils::convert_to_utf8\<close>, whose code is not part of the
  sources. The spec: "convert the byte sequence from a caller-specified legacy encoding
  (default: a Western single-byte encoding) into UTF-8"; what an unrecognized encoding
  name does is left to the collaborator. Only the default encoding is modelled, ISO-8859-1:
  a byte below \<open>80\<close> is kept, a byte \<open>b\<close> from \<open>80\<close> on becomes the two bytes of the
  code point \<open>b\<close>. Every encoding name is read as the default.
\<close>

definition latin1_to_utf8 :: "string \<Rightarrow> string" where
  "latin1_to_utf8 bs =
     concat (map (\<lambda>b. if byte b < 0x80 then [b]
                      else [char_of (0xC0 + byte b div 0x40), char_of (0x80 + byte b mod 0x40)]) bs)"

definition spec_convert_to_utf8 :: "string \<Rightarrow> string \<Rightarrow> string" where
  "spec_convert_to_utf8 s encoding = latin1_to_utf8 s"

definition spec_utils :: utils where
  "spec_utils =
     \<lparr>is_valid_utf8 = spec_is_valid_utf8,
      remove_invalid_xml_chars = spec_remove_invalid_xml_chars,
      convert_to_utf8 = spec_convert_to_utf8\<rparr>"

section \<open>The node\<close>

text \<open>
  An object is identified by its address. A node owns its children through
  \<^verbatim>\<open>std::unique_ptr\<close>, each an address of the heap below; \<open>parent\<close> is the raw
  back pointer, \<open>None\<close> for \<^verbatim>\<open>nullptr\<close>.
\<close>

type_synonym addr = nat

record XmlNode =
  name :: string
  parent :: "addr option"
  attributes :: attr_map
  children :: "addr list"
  inner :: string
  tail :: string

text \<open>
  \<^verbatim>\<open>XmlNode(const std::string& name, XmlNode* parent)\<close>: the name is split at the last
  \<^verbatim>\<open>'\1'\<close>.
\<close>

definition XmlNode_ctor :: "string \<Rightarrow> addr option \<Rightarrow> XmlNode" where
  "XmlNode_ctor nm p =
     (case rfind nm (CHR 0x01) of
        None \<Rightarrow>
          \<lparr>name = nm, parent = p, attributes = map_empty, children = [], inner = [], tail = []\<rparr>
      | Some n \<Rightarrow>
          \<lparr>name = substr_from nm (n + 1), parent = p,
           attributes = map_assign map_empty ''xmlns'' (substr nm 0 n),
           children = [], inner = [], tail = []\<rparr>)"

text \<open>\<^verbatim>\<open>XmlNode(const std::string& xmlns, const std::string& name, XmlNode* parent)\<close>.\<close>

definition XmlNode_ctor_ns :: "string \<Rightarrow> string \<Rightarrow> addr option \<Rightarrow> XmlNode" where
  "XmlNode_ctor_ns xmlns nm p =
     \<lparr>name = nm, parent = p, attributes = map_assign map_empty ''xmlns'' xmlns,
      children = [], inner = [], tail = []\<rparr>"

definition set_attribute :: "XmlNode \<Rightarrow> string \<Rightarrow> string \<Rightarrow> XmlNode" where
  "set_attribute n k v = n\<lparr>attributes := map_assign (attributes n) k v\<rparr>"

definition set_tail :: "XmlNode \<Rightarrow> string \<Rightarrow> XmlNode" where
  "set_tail n data = n\<lparr>tail := data\<rparr>"

definition add_to_tail :: "XmlNode \<Rightarrow> string \<Rightarrow> XmlNode" where
  "add_to_tail n data = n\<lparr>tail := tail n @ data\<rparr>"

definition set_inner :: "XmlNode \<Rightarrow> string \<Rightarrow> XmlNode" where
  "set_inner n data = n\<lparr>inner := data\<rparr>"

definition add_to_inner :: "XmlNode \<Rightarrow> string \<Rightarrow> XmlNode" where
  "add_to_inner n data = n\<lparr>inner := inner n @ data\<rparr>"

definition get_inner :: "XmlNode \<Rightarrow> string" where
  "get_inner n = inner n"

definition get_tail :: "XmlNode \<Rightarrow> string" where
  "get_tail n = tail n"

definition set_name :: "XmlNode \<Rightarrow> string \<Rightarrow> XmlNode" where
  "set_name n nm = n\<lparr>name := nm\<rparr>"

definition get_name :: "XmlNode \<Rightarrow> string" where
  "get_name n = name n"

definition has_children :: "XmlNode \<Rightarrow> bool" where
  "has_children n = (children n \<noteq> [])"

text \<open>\<^verbatim>\<open>get_tag\<close>: \<^verbatim>\<open>at\<close> throws on a missing key, and the handler returns the empty string.\<close>

definition get_tag :: "XmlNode \<Rightarrow> string \<Rightarrow> string" where
  "get_tag n k = (case map_at (attributes n) k of Some v \<Rightarrow> v | None \<Rightarrow> [])"

text \<open>\<^verbatim>\<open>del_tag\<close>: the result, and the node afterwards.\<close>

definition del_tag :: "XmlNode \<Rightarrow> string \<Rightarrow> bool \<times> XmlNode" where
  "del_tag n k =
     (let (count, m) = map_erase (attributes n) k
      in (if count \<noteq> 0 then True else False, n\<lparr>attributes := m\<rparr>))"

section \<open>The heap\<close>

text \<open>
  Nodes live at addresses: \<open>cells\<close> maps an address to the object it holds, and
  \<open>next_free\<close> is the address the next allocation returns. A local variable is an
  object of the same store. Every function that
  dereferences a pointer returns \<open>None\<close> when no object lives there (undefined behaviour
  in the source), and the recursive ones also when their fuel runs out.
\<close>

record heap =
  cells :: "addr \<Rightarrow> XmlNode option"
  next_free :: addr

text \<open>No object lives at an address that was never allocated.\<close>

definition heap_ok :: "heap \<Rightarrow> bool" where
  "heap_ok h = (\<forall>a. next_free h \<le> a \<longrightarrow> cells h a = None)"

text \<open>
  \<^verbatim>\<open>std::make_unique<XmlNode>(args)\<close>: fresh storage, and the constructor \<open>ctor\<close> run
  on it.
\<close>

definition make_unique :: "(heap \<Rightarrow> addr \<Rightarrow> heap option) \<Rightarrow> heap \<Rightarrow> (heap \<times> addr) option" where
  "make_unique ctor h =
     (let p = next_free h
      in case ctor (h\<lparr>next_free := Suc p\<rparr>) p of
           None \<Rightarrow> None
         | Some h' \<Rightarrow> Some (h', p))"

text \<open>\<^verbatim>\<open>XmlNode* XmlNode::add_child(std::unique_ptr<XmlNode> child)\<close>.\<close>

definition add_child :: "heap \<Rightarrow> addr \<Rightarrow> addr \<Rightarrow> (heap \<times> addr) option" where
  "add_child h this child =
     (case cells h child of
        None \<Rightarrow> None
      | Some c \<Rightarrow>
          let h1 = h\<lparr>cells := (cells h)(child \<mapsto> c\<lparr>parent := Some this\<rparr>)\<rparr>;
              ret = child
          in case cells h1 this of
               None \<Rightarrow> None
             | Some t \<Rightarrow>
                 Some (h1\<lparr>cells := (cells h1)(this \<mapsto> t\<lparr>children := children t @ [child]\<rparr>)\<rparr>,
                       ret))"

text \<open>
  \<^verbatim>\<open>XmlNode(XmlNode&& node) = default\<close>: each member is moved, the pointer \<open>parent\<close>
  copied. The vector moved from is empty; the strings and the map moved from are left
  empty too (the standard says valid but unspecified).
\<close>

definition moved_from :: "XmlNode \<Rightarrow> XmlNode" where
  "moved_from n =
     \<lparr>name = [], parent = parent n, attributes = map_empty, children = [], inner = [], tail = []\<rparr>"

definition XmlNode_move :: "heap \<Rightarrow> addr \<Rightarrow> addr \<Rightarrow> heap option" where
  "XmlNode_move h this node =
     (case cells h node of
        None \<Rightarrow> None
      | Some n \<Rightarrow> Some (h\<lparr>cells := (cells h)(node \<mapsto> moved_from n, this \<mapsto> n)\<rparr>))"

text \<open>\<^verbatim>\<open>XmlNode* XmlNode::add_child(XmlNode&& child)\<close>.\<close>

definition add_child_move :: "heap \<Rightarrow> addr \<Rightarrow> addr \<Rightarrow> (heap \<times> addr) option" where
  "add_child_move h this child =
     (case make_unique (\<lambda>h' p. XmlNode_move h' p child) h of
        None \<Rightarrow> None
      | Some (h1, new_node) \<Rightarrow> add_child h1 this new_node)"

text \<open>
  \<^verbatim>\<open>XmlNode(const XmlNode& node)\<close>: the members are copied, \<open>parent\<close> is
  \<^verbatim>\<open>nullptr\<close>, \<open>children\<close> starts empty; then, for each child of \<open>node\<close> in order,
  \<^verbatim>\<open>this->add_child(std::make_unique<XmlNode>(*child))\<close>. The copy of a child is the
  recursive call \<open>cp\<close>.
\<close>

fun copy_children ::
  "(heap \<Rightarrow> addr \<Rightarrow> addr \<Rightarrow> heap option) \<Rightarrow> heap \<Rightarrow> addr \<Rightarrow> addr list \<Rightarrow> heap option" where
  "copy_children cp h this [] = Some h"
| "copy_children cp h this (child # rest) =
     (case make_unique (\<lambda>h' p. cp h' p child) h of
        None \<Rightarrow> None
      | Some (h1, new_node) \<Rightarrow>
          (case add_child h1 this new_node of
             None \<Rightarrow> None
           | Some (h2, _) \<Rightarrow> copy_children cp h2 this rest))"

primrec XmlNode_copy :: "nat \<Rightarrow> heap \<Rightarrow> addr \<Rightarrow> addr \<Rightarrow> heap option" where
  "XmlNode_copy 0 = (\<lambda>h this node. None)"
| "XmlNode_copy (Suc fuel) = (\<lambda>h this node.
     case cells h node of
       None \<Rightarrow> None
     | Some n \<Rightarrow>
         copy_children (XmlNode_copy fuel)
           (h\<lparr>cells := (cells h)(this \<mapsto>
               \<lparr>name = name n, parent = None, attributes = attributes n, children = [],
                inner = inner n, tail = tail n\<rparr>)\<rparr>)
           this (children n))"

text \<open>\<^verbatim>\<open>XmlNode* XmlNode::add_child(const XmlNode& child)\<close>.\<close>

definition add_child_copy :: "nat \<Rightarrow> heap \<Rightarrow> addr \<Rightarrow> addr \<Rightarrow> (heap \<times> addr) option" where
  "add_child_copy fuel h this child =
     (case make_unique (\<lambda>h' p. XmlNode_copy fuel h' p child) h of
        None \<Rightarrow> None
      | Some (h1, new_node) \<Rightarrow> add_child h1 this new_node)"

text \<open>A method of the node, called through a pointer.\<close>

definition call_on :: "heap \<Rightarrow> addr \<Rightarrow> (XmlNode \<Rightarrow> XmlNode) \<Rightarrow> heap option" where
  "call_on h this f =
     (case cells h this of
        None \<Rightarrow> None
      | Some n \<Rightarrow> Some (h\<lparr>cells := (cells h)(this \<mapsto> f n)\<rparr>))"

section \<open>Serialization\<close>

text \<open>One attribute, as the loop of \<^verbatim>\<open>to_string\<close> writes it.\<close>

definition attribute_to_string :: "utils \<Rightarrow> string \<times> string \<Rightarrow> string" where
  "attribute_to_string U it =
     '' '' @ fst it @ [CHR ''='', CHR 0x27] @ (sanitize U (snd it) default_encoding @ [CHR 0x27])"

fun to_string :: "utils \<Rightarrow> nat \<Rightarrow> heap \<Rightarrow> addr \<Rightarrow> string option" where
  "to_string U 0 h this = None"
| "to_string U (Suc fuel) h this =
     (case cells h this of
        None \<Rightarrow> None
      | Some n \<Rightarrow>
          let res = ''<'' @ name n @ concat (map (attribute_to_string U) (entries (attributes n)));
              element =
                (if \<not> has_children n \<and> inner n = [] then Some (res @ ''/>'')
                 else case those (map (to_string U fuel h) (children n)) of
                        None \<Rightarrow> None
                      | Some cs \<Rightarrow>
                          Some (res @ (''>'' @ sanitize U (inner n) default_encoding) @ concat cs
                                @ ''</'' @ get_name n @ ''>''))
          in case element of
               None \<Rightarrow> None
             | Some e \<Rightarrow> Some (e @ sanitize U (tail n) default_encoding))"

section \<open>The scoped builder\<close>

text \<open>
  An \<^verbatim>\<open>XmlSubNode\<close> is an \<^verbatim>\<open>XmlNode\<close>, the object at \<open>node_addr\<close>, and the reference
  \<open>parent_to_add\<close>. Its constructors build the base node with no parent; its destructor
  calls \<^verbatim>\<open>parent_to_add.add_child(std::move(*this))\<close>, and then the base destructor
  ends the moved-from object, which owns no child any more.
\<close>

record XmlSubNode =
  node_addr :: addr
  parent_to_add :: addr

definition XmlSubNode_ctor :: "heap \<Rightarrow> addr \<Rightarrow> string \<Rightarrow> heap \<times> XmlSubNode" where
  "XmlSubNode_ctor h parent_ref nm =
     (let a = next_free h
      in (h\<lparr>cells := (cells h)(a \<mapsto> XmlNode_ctor nm None), next_free := Suc a\<rparr>,
          \<lparr>node_addr = a, parent_to_add = parent_ref\<rparr>))"

definition XmlSubNode_ctor_ns :: "heap \<Rightarrow> addr \<Rightarrow> string \<Rightarrow> string \<Rightarrow> heap \<times> XmlSubNode" where
  "XmlSubNode_ctor_ns h parent_ref xmlns nm =
     (let a = next_free h
      in (h\<lparr>cells := (cells h)(a \<mapsto> XmlNode_ctor_ns xmlns nm None), next_free := Suc a\<rparr>,
          \<lparr>node_addr = a, parent_to_add = parent_ref\<rparr>))"

definition XmlSubNode_dtor :: "heap \<Rightarrow> XmlSubNode \<Rightarrow> heap option" where
  "XmlSubNode_dtor h s =
     (case add_child_move h (parent_to_add s) (node_addr s) of
        None \<Rightarrow> None
      | Some (h1, _) \<Rightarrow> Some (h1\<lparr>cells := (cells h1)(node_addr s := None)\<rparr>))"

text \<open>
  A block that declares an \<^verbatim>\<open>XmlSubNode\<close> (\<open>made\<close>: the heap and the object
  its constructor leaves) and runs \<open>body\<close>. The body leaves the block by reaching its
  end, by a \<^verbatim>\<open>return\<close> or by an exception that propagates; in each case the
  destructor of the local runs as the block is left.
\<close>

datatype 'r scope_exit = Fallthrough | Return 'r | Throw string

definition subnode_scope ::
  "heap \<times> XmlSubNode \<Rightarrow> (XmlSubNode \<Rightarrow> heap \<Rightarrow> 'r scope_exit \<times> heap)
     \<Rightarrow> ('r scope_exit \<times> heap) option" where
  "subnode_scope made body =
     (let (h0, s) = made;
          (how, h1) = body s h0
      in case XmlSubNode_dtor h1 s of
           None \<Rightarrow> None
         | Some h2 \<Rightarrow> Some (how, h2))"

section \<open>The escaping rule of the specification\<close>

text \<open>
  The specification's words for \<^verbatim>\<open>xml_escape\<close>: exactly five characters are replaced,
  \<open>&\<close> by \<open>&amp;\<close>, \<open><\<close> by \<open>&lt;\<close>, \<open>>\<close> by \<open>&gt;\<close>, the double quote by
  \<open>&quot;\<close> and the single quote by \<open>&apos;\<close>; every other byte passes through
  unchanged. This second definition follows those words, to be compared with the loop.
\<close>

definition reserved_table :: "(char \<times> string) list" where
  "reserved_table =
     [(CHR ''&'', ''&amp;''), (CHR ''<'', ''&lt;''), (CHR ''>'', ''&gt;''),
      (CHR 0x22, ''&quot;''), (CHR 0x27, ''&apos;'')]"

definition xml_escape_spec :: "string \<Rightarrow> string" where
  "xml_escape_spec s =
     concat (map (\<lambda>c. case map_of reserved_table c of Some e \<Rightarrow> e | None \<Rightarrow> [c]) s)"

section \<open>The tree below a node\<close>

text \<open>
  What a node owns, read off the heap: its name, attributes, inner and tail text, and
  the trees below its children, in order. The back pointers and the addresses are left
  out. \<open>subtree d h a\<close> is \<open>None\<close> when a pointer reached from \<open>a\<close> holds no
  object, or when the nodes below \<open>a\<close> are nested deeper than \<open>d\<close>.
\<close>

datatype xml_tree = Tree string attr_map string string "xml_tree list"

fun subtree :: "nat \<Rightarrow> heap \<Rightarrow> addr \<Rightarrow> xml_tree option" where
  "subtree 0 h a = None"
| "subtree (Suc d) h a =
     (case cells h a of
        None \<Rightarrow> None
      | Some n \<Rightarrow>
          (case those (map (subtree d h) (children n)) of
             None \<Rightarrow> None
           | Some ts \<Rightarrow> Some (Tree (name n) (attributes n) (inner n) (tail n) ts)))"

text \<open>
  What constructing an object at \<open>this\<close> leaves of the heap \<open>s\<close>: nothing allocated
  before changes but the object itself; the object has no parent; the objects allocated
  since, and the object itself, point only to objects allocated since.
\<close>

definition constructed :: "heap \<Rightarrow> addr \<Rightarrow> heap \<Rightarrow> bool" where
  "constructed s this s' \<longleftrightarrow>
     next_free s \<le> next_free s' \<and> heap_ok s'
     \<and> (\<forall>b<next_free s. b \<noteq> this \<longrightarrow> cells s' b = cells s b)
     \<and> (\<exists>n'. cells s' this = Some n' \<and> parent n' = None
              \<and> (\<forall>c\<in>set (children n'). next_free s \<le> c))
     \<and> (\<forall>b\<ge>next_free s. \<forall>n. cells s' b = Some n \<longrightarrow> (\<forall>c\<in>set (children n). next_free s \<le> c))"

section \<open>Example heaps\<close>

text \<open>One node at address \<open>0\<close>: \<^verbatim>\<open><a/>\<close> followed by the tail text \<open>x\<close>; a node
  whose name is the empty string; the plain node \<^verbatim>\<open><a/>\<close>.\<close>

definition leaf_with_tail :: heap where
  "leaf_with_tail =
     \<lparr>cells = Map.empty(0 \<mapsto> set_tail (XmlNode_ctor ''a'' None) ''x''), next_free = 1\<rparr>"

definition leaf_without_name :: heap where
  "leaf_without_name = \<lparr>cells = Map.empty(0 \<mapsto> XmlNode_ctor [] None), next_free = 1\<rparr>"

definition leaf_plain :: heap where
  "leaf_plain = \<lparr>cells = Map.empty(0 \<mapsto> XmlNode_ctor ''a'' None), next_free = 1\<rparr>"

text \<open>The node \<open>n\<close> after \<^verbatim>\<open>set_attribute("b", "2"); set_attribute("a", "1")\<close>, the
  node after the two calls in the other order, and a heap that holds the first.\<close>

definition node_b_then_a :: XmlNode where
  "node_b_then_a = set_attribute (set_attribute (XmlNode_ctor ''n'' None) ''b'' ''2'') ''a'' ''1''"

definition node_a_then_b :: XmlNode where
  "node_a_then_b = set_attribute (set_attribute (XmlNode_ctor ''n'' None) ''a'' ''1'') ''b'' ''2''"

definition heap_b_then_a :: heap where
  "heap_b_then_a = \<lparr>cells = Map.empty(0 \<mapsto> node_b_then_a), next_free = 1\<rparr>"

text \<open>A heap that holds \<^verbatim>\<open>XmlNode("", "x")\<close>, the namespace being the empty string.\<close>

definition heap_empty_ns :: heap where
  "heap_empty_ns = \<lparr>cells = Map.empty(0 \<mapsto> XmlNode_ctor_ns [] ''x'' None), next_free = 1\<rparr>"

text \<open>The example of the specification: \<^verbatim>\<open>message\<close> with the attribute
  \<open>to\<close>, owning \<^verbatim>\<open>body\<close> with the inner text \<open>hi<3\<close>.\<close>

definition ex_message :: heap where
  "ex_message =
     \<lparr>cells = Map.empty
        (0 \<mapsto> \<lparr>name = ''message'', parent = None,
               attributes = map_assign map_empty ''to'' ''u@h'', children = [1],
               inner = [], tail = []\<rparr>,
         1 \<mapsto> \<lparr>name = ''body'', parent = Some 0, attributes = map_empty, children = [],
               inner = ''hi<3'', tail = []\<rparr>),
      next_free = 2\<rparr>"

text \<open>
  A heap of four nodes: \<open>stream\<close> at \<open>0\<close> owns \<open>message\<close> at \<open>1\<close>, which owns
  \<open>body\<close> at \<open>2\<close>; \<open>extra\<close> at \<open>3\<close> is detached. The tree below \<open>message\<close>.
\<close>

definition ex_heap :: heap where
  "ex_heap =
     \<lparr>cells = Map.empty
        (0 \<mapsto> \<lparr>name = ''stream'', parent = None, attributes = map_empty, children = [1],
               inner = [], tail = []\<rparr>,
         1 \<mapsto> \<lparr>name = ''message'', parent = Some 0,
               attributes = map_assign map_empty ''to'' ''u@h'', children = [2],
               inner = [], tail = []\<rparr>,
         2 \<mapsto> \<lparr>name = ''body'', parent = Some 1, attributes = map_empty, children = [],
               inner = ''hi'', tail = []\<rparr>,
         3 \<mapsto> \<lparr>name = ''extra'', parent = None, attributes = map_empty, children = [],
               inner = [], tail = []\<rparr>),
      next_free = 4\<rparr>"

definition ex_tree :: xml_tree where
  "ex_tree =
     Tree ''message'' (map_assign map_empty ''to'' ''u@h'') [] []
       [Tree ''body'' map_empty ''hi'' [] []]"

text \<open>
  Three bodies for a block, which reach the end, change the node and return, or throw; the
  heap that \<^verbatim>\<open>XmlSubNode presence(stream, "presence")\<close> leaves of the example heap.
\<close>

definition body_falls_through :: "XmlSubNode \<Rightarrow> heap \<Rightarrow> bool scope_exit \<times> heap" where
  "body_falls_through s h = (Fallthrough, h)"

definition body_returns_early :: "XmlSubNode \<Rightarrow> heap \<Rightarrow> bool scope_exit \<times> heap" where
  "body_returns_early s h =
     (case call_on h (node_addr s) (\<lambda>n. set_inner n ''away'') of
        None \<Rightarrow> (Throw ''no node'', h)
      | Some h' \<Rightarrow> (Return True, h'))"

definition body_throws :: "XmlSubNode \<Rightarrow> heap \<Rightarrow> bool scope_exit \<times> heap" where
  "body_throws s h = (Throw ''failure'', h)"

definition ex_scope_heap :: heap where
  "ex_scope_heap = ex_heap\<lparr>cells := (cells ex_heap)(4 \<mapsto> XmlNode_ctor ''presence'' None),
     next_free := 5\<rparr>"

section \<open>Verified properties\<close>

subsection \<open>Escaping\<close>

lemma xml_escape_loop_append:
  "xml_escape_loop res data = res @ xml_escape_loop [] data"
proof (induction data arbitrary: res)
  case Nil
  show ?case by simp
next
  case (Cons c data)
  have step: "xml_escape_loop (res @ e) data = res @ xml_escape_loop e data" for e
    using Cons.IH [of "res @ e"] Cons.IH [of e] by simp
  show ?case
    using step [of "''&amp;''"] step [of "''&lt;''"] step [of "''&gt;''"]
      step [of "''&quot;''"] step [of "''&apos;''"] step [of "[c]"]
    by simp
qed

lemma xml_escape_Nil: "xml_escape [] = []"
  by (simp add: xml_escape_def)

lemma xml_escape_Cons: "xml_escape (c # s) = xml_escape [c] @ xml_escape s"
  unfolding xml_escape_def
  by (subst xml_escape_loop.simps, subst xml_escape_loop_append, simp)

lemma xml_escape_single:
  "xml_escape [c] = (case map_of reserved_table c of Some e \<Rightarrow> e | None \<Rightarrow> [c])"
  by (simp add: xml_escape_def reserved_table_def)

lemma xml_escape_refines: "xml_escape s = xml_escape_spec s"
proof (induction s)
  case Nil
  show ?case by (simp add: xml_escape_Nil xml_escape_spec_def)
next
  case (Cons c s)
  have "xml_escape (c # s) = xml_escape [c] @ xml_escape s" by (rule xml_escape_Cons)
  with Cons show ?case by (simp add: xml_escape_single xml_escape_spec_def)
qed

lemma xml_escape_plain:
  "set s \<inter> fst ` set reserved_table = {} \<Longrightarrow> xml_escape s = s"
proof (induction s)
  case Nil
  show ?case by (simp add: xml_escape_Nil)
next
  case (Cons c s)
  then have "map_of reserved_table c = None"
    by (simp add: map_of_eq_None_iff)
  with Cons show ?case
    by (simp add: xml_escape_Cons [of c s] xml_escape_single)
qed

lemma xml_escape_no_lt: "CHR ''<'' \<notin> set (xml_escape s)"
proof (induction s)
  case Nil
  show ?case by (simp add: xml_escape_Nil)
next
  case (Cons c s)
  have "CHR ''<'' \<notin> set (xml_escape [c])"
    by (simp add: xml_escape_def)
  with Cons show ?case by (simp add: xml_escape_Cons [of c s])
qed

text \<open>The attribute value of the specification's example.\<close>

lemma xml_escape_example:
  "xml_escape [CHR ''a'', CHR ''&'', CHR ''b'', CHR ''<'', CHR ''c'', CHR ''>'', CHR ''d'',
               CHR 0x22, CHR ''e'', CHR 0x27, CHR ''f'']
     = ''a&amp;b&lt;c&gt;d&quot;e&apos;f''"
  by (simp add: xml_escape_def)

text \<open>
  C7: \<^verbatim>\<open>xml_escape\<close> replaces exactly the five reserved characters by their entities
  and copies every other byte (it computes what the specification's table says); hence it
  is the identity, and so idempotent, on a string that holds none of the five, and on
  the five reserved characters it is injective.
\<close>

theorem xml_escape_five:
  "xml_escape s = xml_escape_spec s
   \<and> (set s \<inter> fst ` set reserved_table = {}
        \<longrightarrow> xml_escape s = s \<and> xml_escape (xml_escape s) = xml_escape s)
   \<and> inj_on (\<lambda>c. xml_escape [c]) (fst ` set reserved_table)"
proof (intro conjI impI)
  show "xml_escape s = xml_escape_spec s" by (rule xml_escape_refines)
next
  assume "set s \<inter> fst ` set reserved_table = {}"
  then show "xml_escape s = s" by (rule xml_escape_plain)
next
  assume "set s \<inter> fst ` set reserved_table = {}"
  then show "xml_escape (xml_escape s) = xml_escape s" by (simp add: xml_escape_plain)
next
  show "inj_on (\<lambda>c. xml_escape [c]) (fst ` set reserved_table)"
    by (simp add: inj_on_def xml_escape_def reserved_table_def)
qed

theorem xml_escape_five_witness:
  "xml_escape ''hi there'' = xml_escape_spec ''hi there''
   \<and> set ''hi there'' \<inter> fst ` set reserved_table = {}
   \<and> xml_escape ''hi there'' = ''hi there''
   \<and> xml_escape (xml_escape ''hi there'') = xml_escape ''hi there''"
proof -
  have plain: "set ''hi there'' \<inter> fst ` set reserved_table = {}"
    by (simp add: reserved_table_def)
  from xml_escape_five [of "''hi there''"] plain show ?thesis by blast
qed

subsection \<open>Construction\<close>

lemma rfind_from_absent:
  "i \<le> length s \<Longrightarrow> c \<notin> set (take i s) \<Longrightarrow> rfind_from s c i = None"
proof (induction i)
  case 0
  show ?case by simp
next
  case (Suc i)
  then have "s ! i \<in> set (take (Suc i) s)"
    by (simp add: take_Suc_conv_app_nth)
  with Suc.prems have "s ! i \<noteq> c" by auto
  moreover from Suc.prems have "c \<notin> set (take i s)"
    by (auto dest: in_set_takeD simp: take_Suc_conv_app_nth)
  ultimately show ?case using Suc by simp
qed

lemma rfind_absent: "c \<notin> set s \<Longrightarrow> rfind s c = None"
  by (simp add: rfind_def rfind_from_absent)

lemma rfind_from_last:
  "c \<notin> set suf \<Longrightarrow> i \<le> length suf
     \<Longrightarrow> rfind_from (pre @ c # suf) c (Suc (length pre + i)) = Some (length pre)"
proof (induction i)
  case 0
  show ?case by simp
next
  case (Suc i)
  then have "suf ! i \<in> set suf" by simp
  with Suc.prems have "suf ! i \<noteq> c" by auto
  then have "(pre @ c # suf) ! Suc (length pre + i) \<noteq> c"
    by (simp add: nth_append)
  with Suc show ?case by simp
qed

lemma rfind_last: "c \<notin> set suf \<Longrightarrow> rfind (pre @ c # suf) c = Some (length pre)"
  using rfind_from_last [of c suf "length suf" pre] by (simp add: rfind_def)

lemma rfind_from_Some:
  "rfind_from s c i = Some n \<Longrightarrow> i \<le> length s
     \<Longrightarrow> n < i \<and> s ! n = c \<and> c \<notin> set (drop (Suc n) (take i s))"
proof (induction i)
  case 0
  then show ?case by simp
next
  case (Suc i)
  show ?case
  proof (cases "s ! i = c")
    case True
    with Suc.prems show ?thesis by simp
  next
    case False
    with Suc.prems have r: "rfind_from s c i = Some n" by simp
    with Suc have IH: "n < i" "s ! n = c" "c \<notin> set (drop (Suc n) (take i s))" by simp_all
    from Suc.prems have "take (Suc i) s = take i s @ [s ! i]" and "min (length s) i = i"
      by (simp_all add: take_Suc_conv_app_nth)
    with IH False show ?thesis by auto
  qed
qed

lemma entries_xmlns: "entries (map_assign map_empty k v) = [(k, v)]"
  by (simp add: map_assign.rep_eq map_empty.rep_eq)

text \<open>
  C2: the one-string constructor splits a name at the last \<^verbatim>\<open>'\1'\<close>: for a name
  \<open>pre @ '\1' # suf\<close> where \<open>suf\<close> holds no separator, the node's name is \<open>suf\<close>
  and the only attribute is \<open>xmlns\<close> with value \<open>pre\<close> (which may itself hold
  separators); a name with no separator is stored unchanged and no \<open>xmlns\<close> attribute
  is created; in both cases the stored name holds no separator.
\<close>

theorem XmlNode_ctor_splits_at_last_separator:
  "(CHR 0x01 \<notin> set suf
      \<longrightarrow> name (XmlNode_ctor (pre @ CHR 0x01 # suf) p) = suf
        \<and> entries (attributes (XmlNode_ctor (pre @ CHR 0x01 # suf) p)) = [(''xmlns'', pre)]
        \<and> map_at (attributes (XmlNode_ctor (pre @ CHR 0x01 # suf) p)) ''xmlns'' = Some pre
        \<and> get_tag (XmlNode_ctor (pre @ CHR 0x01 # suf) p) ''xmlns'' = pre)
   \<and> (CHR 0x01 \<notin> set nm
      \<longrightarrow> name (XmlNode_ctor nm p) = nm
        \<and> entries (attributes (XmlNode_ctor nm p)) = []
        \<and> map_at (attributes (XmlNode_ctor nm p)) ''xmlns'' = None)
   \<and> CHR 0x01 \<notin> set (name (XmlNode_ctor nm p))
   \<and> parent (XmlNode_ctor nm p) = p"
proof (intro conjI impI)
  assume "CHR 0x01 \<notin> set suf"
  then have r: "rfind (pre @ CHR 0x01 # suf) (CHR 0x01) = Some (length pre)"
    by (rule rfind_last)
  show "name (XmlNode_ctor (pre @ CHR 0x01 # suf) p) = suf"
    by (simp add: XmlNode_ctor_def r substr_from_def)
  show "entries (attributes (XmlNode_ctor (pre @ CHR 0x01 # suf) p)) = [(''xmlns'', pre)]"
    by (simp add: XmlNode_ctor_def r substr_def entries_xmlns)
  then show at: "map_at (attributes (XmlNode_ctor (pre @ CHR 0x01 # suf) p)) ''xmlns'' = Some pre"
    by (simp add: map_at_def)
  then show "get_tag (XmlNode_ctor (pre @ CHR 0x01 # suf) p) ''xmlns'' = pre"
    by (simp add: get_tag_def)
next
  assume "CHR 0x01 \<notin> set nm"
  then have r: "rfind nm (CHR 0x01) = None" by (rule rfind_absent)
  show "name (XmlNode_ctor nm p) = nm"
    by (simp add: XmlNode_ctor_def r)
  show "entries (attributes (XmlNode_ctor nm p)) = []"
    by (simp add: XmlNode_ctor_def r map_empty.rep_eq)
  then show "map_at (attributes (XmlNode_ctor nm p)) ''xmlns'' = None"
    by (simp add: map_at_def)
next
  show "CHR 0x01 \<notin> set (name (XmlNode_ctor nm p))"
  proof (cases "rfind nm (CHR 0x01)")
    case None
    have "CHR 0x01 \<notin> set nm"
    proof
      assume "CHR 0x01 \<in> set nm"
      then obtain ys zs where "nm = ys @ CHR 0x01 # zs" "CHR 0x01 \<notin> set zs"
        by (auto dest: split_list_last)
      with None rfind_last [of "CHR 0x01" zs ys] show False by simp
    qed
    with None show ?thesis by (simp add: XmlNode_ctor_def)
  next
    case (Some n)
    then have "CHR 0x01 \<notin> set (drop (Suc n) nm)"
      using rfind_from_Some [of nm "CHR 0x01" "length nm" n] by (simp add: rfind_def)
    with Some show ?thesis by (simp add: XmlNode_ctor_def substr_from_def)
  qed
next
  show "parent (XmlNode_ctor nm p) = p"
    by (simp add: XmlNode_ctor_def split: option.split)
qed

theorem XmlNode_ctor_splits_at_last_separator_witness:
  "name (XmlNode_ctor (''urn:example'' @ CHR 0x01 # ''item'') None) = ''item''
   \<and> map_at (attributes (XmlNode_ctor (''urn:example'' @ CHR 0x01 # ''item'') None)) ''xmlns''
       = Some ''urn:example''
   \<and> get_tag (XmlNode_ctor (''urn:example'' @ CHR 0x01 # ''item'') None) ''xmlns''
       = ''urn:example''
   \<and> name (XmlNode_ctor ''item'' None) = ''item''
   \<and> map_at (attributes (XmlNode_ctor ''item'' None)) ''xmlns'' = None"
  using XmlNode_ctor_splits_at_last_separator
      [of "''item''" "''urn:example''" None "''item''"]
  by simp

subsection \<open>Text accumulation\<close>

text \<open>
  C8: \<^verbatim>\<open>add_to_inner\<close> appends its argument as it is and \<^verbatim>\<open>set_inner\<close> replaces the
  text, so on a node whose inner text is empty \<^verbatim>\<open>add_to_inner(a); add_to_inner(b)\<close>
  leaves the node that \<^verbatim>\<open>set_inner(a + b)\<close> leaves; the same for the tail.
\<close>

theorem append_text_is_concatenation:
  "inner (add_to_inner n a) = inner n @ a
   \<and> inner (set_inner n a) = a
   \<and> tail (add_to_tail n a) = tail n @ a
   \<and> tail (set_tail n a) = a
   \<and> (inner n = [] \<longrightarrow> add_to_inner (add_to_inner n a) b = set_inner n (a @ b))
   \<and> (tail n = [] \<longrightarrow> add_to_tail (add_to_tail n a) b = set_tail n (a @ b))
   \<and> get_inner (add_to_inner (add_to_inner (set_inner n []) a) b) = get_inner (set_inner n (a @ b))
   \<and> get_tail (add_to_tail (add_to_tail (set_tail n []) a) b) = get_tail (set_tail n (a @ b))"
  by (simp add: add_to_inner_def set_inner_def add_to_tail_def set_tail_def get_inner_def
      get_tail_def)

theorem append_text_is_concatenation_witness:
  "inner (XmlNode_ctor ''body'' None) = []
   \<and> add_to_inner (add_to_inner (XmlNode_ctor ''body'' None) ''ab'') ''cd''
       = set_inner (XmlNode_ctor ''body'' None) ''abcd''
   \<and> inner (set_inner (XmlNode_ctor ''body'' None) ''abcd'') = ''abcd''
   \<and> tail (XmlNode_ctor ''body'' None) = []
   \<and> add_to_tail (add_to_tail (XmlNode_ctor ''body'' None) ''ab'') ''cd''
       = set_tail (XmlNode_ctor ''body'' None) ''abcd''"
proof -
  have i: "inner (XmlNode_ctor ''body'' None) = []" and t: "tail (XmlNode_ctor ''body'' None) = []"
    by (simp_all add: XmlNode_ctor_def rfind_def)
  from append_text_is_concatenation [of "XmlNode_ctor ''body'' None" "''ab''" "''cd''"]
    append_text_is_concatenation [of "XmlNode_ctor ''body'' None" "''abcd''"] i t
  show ?thesis by simp
qed

subsection \<open>The attribute map\<close>

lemma sorted_keys_above:
  "sorted_wrt (<) (map fst ((k, v) # (xs :: attr_list))) \<Longrightarrow> k' \<le> k \<Longrightarrow> map_of xs k' = None"
proof -
  assume "sorted_wrt (<) (map fst ((k, v) # xs))" and le: "k' \<le> k"
  then have "\<forall>x\<in>set xs. k < fst x" by simp
  with le have "k' < fst x" if "x \<in> set xs" for x
    using that le_less_trans by blast
  then have "k' \<notin> fst ` set xs" by auto
  then show ?thesis by (simp add: map_of_eq_None_iff)
qed

lemma map_of_insert_entry:
  "sorted_wrt (<) (map fst (xs :: attr_list)) \<Longrightarrow> map_of (map_insert_entry k v xs) = (map_of xs)(k \<mapsto> v)"
  by (induction xs) (auto simp: fun_eq_iff)

lemma map_of_erase_entry:
  "sorted_wrt (<) (map fst (xs :: attr_list)) \<Longrightarrow> map_of (map_erase_entry k xs) = (map_of xs)(k := None)"
proof (induction xs)
  case Nil
  show ?case by simp
next
  case (Cons e xs)
  obtain k' v' where e: "e = (k', v')" by (cases e)
  show ?case
  proof (cases "k = k'")
    case True
    from Cons.prems e have "map_of xs k' = None"
      using sorted_keys_above [of k' v' xs k'] by simp
    with True e show ?thesis by (auto simp: fun_eq_iff)
  next
    case False
    with Cons e show ?thesis by (auto simp: fun_eq_iff)
  qed
qed

lemma erase_entry_absent: "map_of xs k = None \<Longrightarrow> map_erase_entry k xs = xs"
  by (induction xs) (auto split: if_splits)

lemma erase_entry_present:
  "map_of xs k = Some v \<Longrightarrow> Suc (length (map_erase_entry k xs)) = length xs"
  by (induction xs) (auto split: if_splits)

lemma sorted_entries_unique:
  "sorted_wrt (<) (map fst (xs :: attr_list)) \<Longrightarrow> sorted_wrt (<) (map fst ys) \<Longrightarrow> map_of xs = map_of ys
     \<Longrightarrow> xs = ys"
proof (induction xs arbitrary: ys)
  case Nil
  then have "map_of ys = Map.empty" by simp
  then show ?case by simp
next
  case (Cons e xs)
  obtain k v where e: "e = (k, v)" by (cases e)
  from fun_cong [OF Cons.prems(3), of k] e have "map_of ys k = Some v" by simp
  then obtain e' ys' where ys: "ys = e' # ys'" by (cases ys) auto
  obtain k' v' where e': "e' = (k', v')" by (cases e')
  have "k = k'"
  proof (rule ccontr)
    assume ne: "k \<noteq> k'"
    show False
    proof (cases "k < k'")
      case True
      then have "k \<le> k'" by (rule less_imp_le)
      with Cons.prems(2) ys e' have "map_of ys' k = None"
        using sorted_keys_above [of k' v' ys' k] by simp
      with ne ys e' have "map_of ys k = None" by simp
      with \<open>map_of ys k = Some v\<close> show False by simp
    next
      case False
      with ne have "k' < k" by simp
      then have "k' \<le> k" by (rule less_imp_le)
      with Cons.prems(1) e have "map_of xs k' = None"
        using sorted_keys_above [of k v xs k'] by simp
      with ne e have "map_of (e # xs) k' = None" by simp
      moreover from ys e' have "map_of ys k' = Some v'" by simp
      ultimately show False using fun_cong [OF Cons.prems(3), of k'] by simp
    qed
  qed
  with \<open>map_of ys k = Some v\<close> ys e' have "v = v'" by simp
  have nx: "map_of xs k = None" using Cons.prems(1) e sorted_keys_above [of k v xs k] by simp
  have ny: "map_of ys' k = None"
    using Cons.prems(2) ys e' \<open>k = k'\<close> sorted_keys_above [of k' v' ys' k] by simp
  have "map_of xs = map_of ys'"
  proof
    fix x
    show "map_of xs x = map_of ys' x"
    proof (cases "x = k")
      case True
      with nx ny show ?thesis by simp
    next
      case False
      from fun_cong [OF Cons.prems(3), of x] have "map_of (e # xs) x = map_of ys x" .
      with False e ys e' \<open>k = k'\<close> show ?thesis by simp
    qed
  qed
  moreover from Cons.prems e ys have "sorted_wrt (<) (map fst xs)" "sorted_wrt (<) (map fst ys')"
    by simp_all
  ultimately have "xs = ys'" by (rule Cons.IH [rotated 2])
  with e e' ys \<open>k = k'\<close> \<open>v = v'\<close> show ?case by simp
qed

lemma entries_sorted: "sorted_wrt (<) (map fst (entries m))"
  using entries [of m] by simp

lemma attr_map_eqI: "map_at m1 = map_at m2 \<Longrightarrow> m1 = m2"
proof -
  assume "map_at m1 = map_at m2"
  then have "map_of (entries m1) = map_of (entries m2)"
    by (simp add: map_at_def fun_eq_iff)
  then have "entries m1 = entries m2"
    by (rule sorted_entries_unique [OF entries_sorted entries_sorted])
  then show ?thesis by (simp add: entries_inject)
qed

lemma map_at_assign: "map_at (map_assign m k v) = (map_at m)(k \<mapsto> v)"
  using map_of_insert_entry [OF entries_sorted, of k v m]
  by (simp add: map_at_def map_assign.rep_eq fun_eq_iff)

lemma map_at_erase_key: "map_at (map_erase_key m k) = (map_at m)(k := None)"
  using map_of_erase_entry [OF entries_sorted, of k m]
  by (simp add: map_at_def map_erase_key.rep_eq fun_eq_iff)

lemma map_at_empty: "map_at map_empty = Map.empty"
  by (simp add: map_at_def map_empty.rep_eq fun_eq_iff)

lemma map_erase_absent: "map_at m k = None \<Longrightarrow> map_erase m k = (0, m)"
proof -
  assume "map_at m k = None"
  then have "map_erase_entry k (entries m) = entries m"
    by (simp add: map_at_def erase_entry_absent)
  then have "entries (map_erase_key m k) = entries m"
    by (simp add: map_erase_key.rep_eq)
  then have "map_erase_key m k = m" by (simp add: entries_inject)
  then show ?thesis by (simp add: map_erase_def)
qed

lemma map_erase_present: "map_at m k = Some v \<Longrightarrow> map_erase m k = (1, map_erase_key m k)"
proof -
  assume "map_at m k = Some v"
  then have "Suc (length (map_erase_entry k (entries m))) = length (entries m)"
    by (simp add: map_at_def erase_entry_present)
  then have "length (entries m) - length (entries (map_erase_key m k)) = 1"
    by (simp add: map_erase_key.rep_eq)
  then show ?thesis by (simp add: map_erase_def)
qed

text \<open>
  C9: \<^verbatim>\<open>del_tag\<close> returns true exactly when the key was present. When the key is absent
  it returns false and leaves the node, and so the attribute map, as it was. In every
  case the attribute map afterwards is the map before with that one key removed: every
  other key keeps its presence and its value, and no other member of the node changes.
\<close>

theorem del_tag_removes_exactly_the_key:
  "(fst (del_tag n k) \<longleftrightarrow> map_at (attributes n) k \<noteq> None)
   \<and> (map_at (attributes n) k = None \<longrightarrow> del_tag n k = (False, n))
   \<and> map_at (attributes (snd (del_tag n k))) = (map_at (attributes n))(k := None)
   \<and> (\<forall>k'. k' \<noteq> k
        \<longrightarrow> map_at (attributes (snd (del_tag n k))) k' = map_at (attributes n) k')
   \<and> (snd (del_tag n k))\<lparr>attributes := attributes n\<rparr> = n"
proof (cases "map_at (attributes n) k")
  case None
  then have "del_tag n k = (False, n)"
    by (simp add: del_tag_def map_erase_absent)
  with None show ?thesis by (simp add: fun_eq_iff)
next
  case (Some v)
  then have "del_tag n k = (True, n\<lparr>attributes := map_erase_key (attributes n) k\<rparr>)"
    by (simp add: del_tag_def map_erase_present)
  with Some show ?thesis by (simp add: map_at_erase_key)
qed

theorem del_tag_removes_exactly_the_key_witness:
  "del_tag (set_attribute (XmlNode_ctor ''a'' None) ''id'' ''1'') ''to''
     = (False, set_attribute (XmlNode_ctor ''a'' None) ''id'' ''1'')
   \<and> fst (del_tag (set_attribute (XmlNode_ctor ''a'' None) ''id'' ''1'') ''id'')
   \<and> map_at (attributes (snd (del_tag (set_attribute (XmlNode_ctor ''a'' None) ''id'' ''1'') ''id'')))
        ''id'' = None"
proof -
  let ?n = "set_attribute (XmlNode_ctor ''a'' None) ''id'' ''1''"
  have absent: "map_at (attributes ?n) ''to'' = None"
    and present: "map_at (attributes ?n) ''id'' \<noteq> None"
    by (simp_all add: set_attribute_def XmlNode_ctor_def rfind_def map_at_assign map_at_empty)
  note to = del_tag_removes_exactly_the_key [of ?n "''to''"]
    and id = del_tag_removes_exactly_the_key [of ?n "''id''"]
  from to absent have 1: "del_tag ?n ''to'' = (False, ?n)" by blast
  from id present have 2: "fst (del_tag ?n ''id'')" by blast
  from id have "map_at (attributes (snd (del_tag ?n ''id''))) ''id''
      = ((map_at (attributes ?n))(''id'' := None)) ''id''" by metis
  then have 3: "map_at (attributes (snd (del_tag ?n ''id''))) ''id'' = None"
    by (simp only: fun_upd_same)
  from 1 2 3 show ?thesis by blast
qed

subsection \<open>The tree below a node\<close>

lemma those_map_Some:
  "those (map f xs) = Some ys \<longleftrightarrow> list_all2 (\<lambda>x y. f x = Some y) xs ys"
proof (induction xs arbitrary: ys)
  case Nil
  show ?case by auto
next
  case (Cons x xs)
  show ?case
  proof (cases "f x")
    case None
    then show ?thesis by (auto simp: list_all2_Cons1)
  next
    case (Some y)
    with Cons show ?thesis by (auto simp: list_all2_Cons1)
  qed
qed

lemma subtree_Suc_Some:
  "subtree (Suc d) h a = Some t \<longleftrightarrow>
     (\<exists>n ts. cells h a = Some n \<and> list_all2 (\<lambda>c tc. subtree d h c = Some tc) (children n) ts
            \<and> t = Tree (name n) (attributes n) (inner n) (tail n) ts)"
proof -
  have "subtree (Suc d) h a = Some t \<longleftrightarrow>
     (\<exists>n ts. cells h a = Some n \<and> those (map (subtree d h) (children n)) = Some ts
            \<and> t = Tree (name n) (attributes n) (inner n) (tail n) ts)"
    by (auto split: option.splits)
  then show ?thesis by (simp only: those_map_Some)
qed

lemma subtree_allocated: "subtree d h a = Some t \<Longrightarrow> cells h a \<noteq> None"
  by (cases d) (auto split: option.splits)

lemma same_but_parent:
  "n'\<lparr>parent := q\<rparr> = n \<Longrightarrow> name n' = name n \<and> attributes n' = attributes n
     \<and> children n' = children n \<and> inner n' = inner n \<and> tail n' = tail n"
  by auto

lemma same_but_children:
  "n'\<lparr>children := cs\<rparr> = n \<Longrightarrow> name n' = name n \<and> attributes n' = attributes n
     \<and> parent n' = parent n \<and> inner n' = inner n \<and> tail n' = tail n"
  by auto

lemma subtree_frame:
  assumes "subtree d h a = Some t" and "a \<in> R"
    and "\<And>b n. b \<in> R \<Longrightarrow> cells h b = Some n
           \<Longrightarrow> set (children n) \<subseteq> R \<and> (\<exists>n'. cells h' b = Some n' \<and> n'\<lparr>parent := parent n\<rparr> = n)"
  shows "subtree d h' a = Some t"
  using assms(1,2)
proof (induction d arbitrary: a t)
  case 0
  then show ?case by simp
next
  case (Suc d)
  from Suc.prems(1) obtain n ts where n: "cells h a = Some n"
    and ts: "list_all2 (\<lambda>c tc. subtree d h c = Some tc) (children n) ts"
    and t: "t = Tree (name n) (attributes n) (inner n) (tail n) ts"
    unfolding subtree_Suc_Some by blast
  from assms(3) [OF Suc.prems(2) n] obtain n' where R: "set (children n) \<subseteq> R"
    and n': "cells h' a = Some n'" and eq: "n'\<lparr>parent := parent n\<rparr> = n"
    by auto
  from same_but_parent [OF eq]
  have fields: "name n' = name n" "attributes n' = attributes n" "inner n' = inner n"
    "tail n' = tail n" "children n' = children n"
    by simp_all
  from ts have "list_all2 (\<lambda>c tc. subtree d h' c = Some tc) (children n) ts"
  proof (rule list.rel_mono_strong)
    fix c tc
    assume "c \<in> set (children n)" and "subtree d h c = Some tc"
    with R show "subtree d h' c = Some tc" by (auto intro: Suc.IH)
  qed
  with n' fields t show ?case unfolding subtree_Suc_Some by auto
qed

subsection \<open>Serialization\<close>

lemma sanitize_spec_Nil: "sanitize spec_utils [] default_encoding = []"
  by (simp add: sanitize_def spec_utils_def c_str_def spec_is_valid_utf8_def
      spec_remove_invalid_xml_chars_def xml_escape_def byte_def)

lemma sanitize_spec_x: "sanitize spec_utils ''x'' default_encoding = ''x''"
  by (simp add: sanitize_def spec_utils_def c_str_def spec_is_valid_utf8_def
      spec_remove_invalid_xml_chars_def xml_escape_def byte_def)

lemma sanitize_spec_1: "sanitize spec_utils ''1'' default_encoding = ''1''"
  by (simp add: sanitize_def spec_utils_def c_str_def spec_is_valid_utf8_def
      spec_remove_invalid_xml_chars_def xml_escape_def byte_def)

lemma sanitize_spec_2: "sanitize spec_utils ''2'' default_encoding = ''2''"
  by (simp add: sanitize_def spec_utils_def c_str_def spec_is_valid_utf8_def
      spec_remove_invalid_xml_chars_def xml_escape_def byte_def)

lemma sanitize_no_lt: "CHR ''<'' \<notin> set (sanitize U s enc)"
  by (simp add: sanitize_def xml_escape_no_lt)

lemma to_string_leaf:
  "cells h this = Some n \<Longrightarrow> children n = [] \<Longrightarrow> inner n = []
     \<Longrightarrow> to_string U (Suc fuel) h this =
           Some ((''<'' @ name n @ concat (map (attribute_to_string U) (entries (attributes n)))
                  @ ''/>'') @ sanitize U (tail n) default_encoding)"
  by (simp add: has_children_def)

lemma to_string_starts:
  "to_string U fuel h this = Some s \<Longrightarrow> cells h this = Some n
     \<Longrightarrow> \<exists>rest. s = ''<'' @ name n @ concat (map (attribute_to_string U) (entries (attributes n)))
                      @ rest"
proof (cases fuel)
  case 0
  assume "to_string U fuel h this = Some s"
  with 0 show ?thesis by simp
next
  case (Suc f)
  assume "to_string U fuel h this = Some s" and "cells h this = Some n"
  with Suc show ?thesis
    by (auto simp: Let_def split: if_splits option.splits)
qed

lemma to_string_returns:
  "subtree d h this = Some t \<Longrightarrow> \<exists>out. to_string U d h this = Some out"
proof (induction d arbitrary: this t)
  case 0
  then show ?case by simp
next
  case (Suc d)
  from Suc.prems obtain n ts where n: "cells h this = Some n"
    and ts: "list_all2 (\<lambda>c tc. subtree d h c = Some tc) (children n) ts"
    unfolding subtree_Suc_Some by blast
  have "\<exists>cs. list_all2 (\<lambda>c out. to_string U d h c = Some out) xs cs"
    if "list_all2 (\<lambda>c tc. subtree d h c = Some tc) xs ts'" for xs ts'
    using that
  proof (induction xs arbitrary: ts')
    case Nil
    show ?case by simp
  next
    case (Cons c xs)
    from Cons.prems obtain tc ts'' where "subtree d h c = Some tc"
      and "list_all2 (\<lambda>c tc. subtree d h c = Some tc) xs ts''"
      by (auto simp: list_all2_Cons1)
    with Suc.IH Cons.IH obtain out cs where "to_string U d h c = Some out"
      and "list_all2 (\<lambda>c out. to_string U d h c = Some out) xs cs"
      by blast
    then have "list_all2 (\<lambda>c out. to_string U d h c = Some out) (c # xs) (out # cs)" by simp
    then show ?case by blast
  qed
  from this [OF ts]
  have "\<exists>cs. list_all2 (\<lambda>c out. to_string U d h c = Some out) (children n) cs" .
  then obtain cs where "those (map (to_string U d h) (children n)) = Some cs"
    unfolding those_map_Some by blast
  with n show ?case by (simp add: Let_def)
qed

text \<open>The end-to-end example of the specification.\<close>

lemma to_string_ex_message:
  "to_string spec_utils (Suc (Suc 0)) ex_message 0
     = Some (''<message to='' @ [CHR 0x27] @ ''u@h'' @ [CHR 0x27]
             @ ''><body>hi&lt;3</body></message>'')"
  by (simp add: ex_message_def has_children_def get_name_def attribute_to_string_def
      map_assign.rep_eq map_empty.rep_eq sanitize_def spec_utils_def c_str_def
      spec_is_valid_utf8_def spec_remove_invalid_xml_chars_def xml_escape_def byte_def
      default_encoding_def)

lemma no_close_after_open:
  "CHR ''<'' \<notin> set r \<Longrightarrow> r \<noteq> [] \<Longrightarrow> hd r \<noteq> CHR ''/'' \<Longrightarrow> \<not> sublist ''</'' (CHR ''<'' # r)"
proof
  assume r: "CHR ''<'' \<notin> set r" "r \<noteq> []" "hd r \<noteq> CHR ''/''"
  assume "sublist ''</'' (CHR ''<'' # r)"
  then obtain ps ss where eq: "CHR ''<'' # r = ps @ ''</'' @ ss"
    by (auto simp: sublist_def)
  show False
  proof (cases ps)
    case Nil
    with eq have "r = CHR ''/'' # ss" by simp
    with r show False by simp
  next
    case (Cons p ps')
    with eq have "r = ps' @ ''</'' @ ss" by simp
    then have "CHR ''<'' \<in> set r" by simp
    with r show False by simp
  qed
qed

lemma attribute_to_string_no_lt:
  "CHR ''<'' \<notin> set (fst it) \<Longrightarrow> CHR ''<'' \<notin> set (attribute_to_string U it)"
  by (simp add: attribute_to_string_def sanitize_no_lt)

text \<open>
  C1, as amended. For a node with no children and empty inner text, \<^verbatim>\<open>to_string\<close>
  returns \<open><\<close>, the name, the attributes, \<open>/>\<close> and then the sanitized tail text:
  the element is self-closing, and the output ends in \<open>/>\<close> when the sanitized tail
  is empty. When the name is not empty, does not begin with \<open>/\<close>, and neither the
  name nor an attribute key holds \<open><\<close> (names and keys are written as they are), the
  output holds no \<open></\<close> at all, hence no closing tag.
\<close>

theorem leaf_to_string_self_closing:
  assumes "cells h this = Some n" and "children n = []" and "inner n = []"
  shows "to_string U (Suc fuel) h this =
           Some (''<'' @ name n @ concat (map (attribute_to_string U) (entries (attributes n)))
                 @ ''/>'' @ sanitize U (tail n) default_encoding)
         \<and> (sanitize U (tail n) default_encoding = []
              \<longrightarrow> (\<exists>out. to_string U (Suc fuel) h this = Some out \<and> suffix ''/>'' out))
         \<and> (name n \<noteq> [] \<and> hd (name n) \<noteq> CHR ''/'' \<and> CHR ''<'' \<notin> set (name n)
              \<and> (\<forall>it\<in>set (entries (attributes n)). CHR ''<'' \<notin> set (fst it))
              \<longrightarrow> (\<exists>out. to_string U (Suc fuel) h this = Some out \<and> \<not> sublist ''</'' out))"
proof -
  let ?attrs = "concat (map (attribute_to_string U) (entries (attributes n)))"
  let ?tail = "sanitize U (tail n) default_encoding"
  let ?element = "''<'' @ name n @ ?attrs @ ''/>''"
  have out: "to_string U (Suc fuel) h this = Some (?element @ ?tail)"
    using to_string_leaf [OF assms] by simp
  have closes: "suffix ''/>'' (?element @ ?tail)" if "?tail = []"
    using that by (simp add: suffix_def)
  have none: "\<not> sublist ''</'' (?element @ ?tail)"
    if wf: "name n \<noteq> [] \<and> hd (name n) \<noteq> CHR ''/'' \<and> CHR ''<'' \<notin> set (name n)
        \<and> (\<forall>it\<in>set (entries (attributes n)). CHR ''<'' \<notin> set (fst it))"
  proof -
    let ?r = "name n @ ?attrs @ ''/>'' @ ?tail"
    from wf have "CHR ''<'' \<notin> set ?attrs"
      by (auto dest: attribute_to_string_no_lt)
    with wf have "CHR ''<'' \<notin> set ?r" by (simp add: sanitize_no_lt)
    moreover from wf have "?r \<noteq> []" and "hd ?r \<noteq> CHR ''/''" by simp_all
    ultimately have "\<not> sublist ''</'' (CHR ''<'' # ?r)" by (rule no_close_after_open)
    then show ?thesis by simp
  qed
  from out have "to_string U (Suc fuel) h this = Some (''<'' @ name n @ ?attrs @ ''/>'' @ ?tail)"
    by simp
  moreover from out closes
  have "?tail = [] \<longrightarrow> (\<exists>out. to_string U (Suc fuel) h this = Some out \<and> suffix ''/>'' out)"
    by blast
  moreover from out none
  have "name n \<noteq> [] \<and> hd (name n) \<noteq> CHR ''/'' \<and> CHR ''<'' \<notin> set (name n)
        \<and> (\<forall>it\<in>set (entries (attributes n)). CHR ''<'' \<notin> set (fst it))
        \<longrightarrow> (\<exists>out. to_string U (Suc fuel) h this = Some out \<and> \<not> sublist ''</'' out)"
    by blast
  ultimately show ?thesis by blast
qed

theorem leaf_to_string_self_closing_witness:
  "cells leaf_plain 0 = Some (XmlNode_ctor ''a'' None)
   \<and> children (XmlNode_ctor ''a'' None) = [] \<and> inner (XmlNode_ctor ''a'' None) = []
   \<and> to_string spec_utils (Suc 0) leaf_plain 0 = Some ''<a/>''
   \<and> suffix ''/>'' ''<a/>'' \<and> \<not> sublist ''</'' ''<a/>''"
proof -
  let ?n = "XmlNode_ctor ''a'' None"
  have n: "?n = \<lparr>name = ''a'', parent = None, attributes = map_empty, children = [], inner = [],
      tail = []\<rparr>"
    by (simp add: XmlNode_ctor_def rfind_def)
  have c: "cells leaf_plain 0 = Some ?n" by (simp add: leaf_plain_def)
  have k: "children ?n = []" and i: "inner ?n = []" by (simp_all add: n)
  note T = leaf_to_string_self_closing [OF c k i, of spec_utils 0]
  have t: "sanitize spec_utils (tail ?n) default_encoding = []"
    by (simp add: n sanitize_spec_Nil)
  have wf: "name ?n \<noteq> [] \<and> hd (name ?n) \<noteq> CHR ''/'' \<and> CHR ''<'' \<notin> set (name ?n)
      \<and> (\<forall>it\<in>set (entries (attributes ?n)). CHR ''<'' \<notin> set (fst it))"
    by (simp add: n map_empty.rep_eq)
  from T have "to_string spec_utils (Suc 0) leaf_plain 0 =
      Some (''<'' @ name ?n @ concat (map (attribute_to_string spec_utils) (entries (attributes ?n)))
            @ ''/>'' @ sanitize spec_utils (tail ?n) default_encoding)"
    by (rule conjunct1)
  then have out: "to_string spec_utils (Suc 0) leaf_plain 0 = Some ''<a/>''"
    by (simp add: n map_empty.rep_eq sanitize_spec_Nil del: to_string.simps)
  from T t obtain o1 where "to_string spec_utils (Suc 0) leaf_plain 0 = Some o1" "suffix ''/>'' o1"
    by blast
  with out have 1: "suffix ''/>'' ''<a/>''" by simp
  from T wf obtain o2 where "to_string spec_utils (Suc 0) leaf_plain 0 = Some o2"
    "\<not> sublist ''</'' o2"
    by blast
  with out have 2: "\<not> sublist ''</'' ''<a/>''" by simp
  from c k i out 1 2 show ?thesis by blast
qed

text \<open>
  C1 as stated fails: the tail text follows the element, so \<^verbatim>\<open><a/>x\<close> does not end
  in \<open>/>\<close>; and the node whose name is empty is written \<^verbatim>\<open></>\<close>, which is its
  own closing tag.
\<close>

theorem leaf_to_string_counterexample:
  "cells leaf_with_tail 0 = Some (set_tail (XmlNode_ctor ''a'' None) ''x'')
   \<and> children (set_tail (XmlNode_ctor ''a'' None) ''x'') = []
   \<and> inner (set_tail (XmlNode_ctor ''a'' None) ''x'') = []
   \<and> to_string spec_utils (Suc 0) leaf_with_tail 0 = Some ''<a/>x''
   \<and> \<not> suffix ''/>'' ''<a/>x''
   \<and> cells leaf_without_name 0 = Some (XmlNode_ctor [] None)
   \<and> children (XmlNode_ctor [] None) = [] \<and> inner (XmlNode_ctor [] None) = []
   \<and> to_string spec_utils (Suc 0) leaf_without_name 0 = Some ''</>''
   \<and> sublist (''</'' @ name (XmlNode_ctor [] None) @ ''>'') ''</>''"
  by (simp add: leaf_with_tail_def leaf_without_name_def set_tail_def XmlNode_ctor_def rfind_def
      has_children_def map_empty.rep_eq sanitize_spec_x sanitize_spec_Nil suffix_def)

subsection \<open>Attribute order\<close>

lemma set_attribute_commute:
  "k1 \<noteq> k2 \<Longrightarrow> set_attribute (set_attribute n k1 v1) k2 v2
                  = set_attribute (set_attribute n k2 v2) k1 v1"
proof -
  assume "k1 \<noteq> k2"
  then have "map_assign (map_assign (attributes n) k1 v1) k2 v2
           = map_assign (map_assign (attributes n) k2 v2) k1 v1"
    by (intro attr_map_eqI) (auto simp: map_at_assign fun_eq_iff)
  then show ?thesis by (simp add: set_attribute_def)
qed

lemma entries_present: "map_at m k = Some v \<Longrightarrow> (k, v) \<in> set (entries m)"
  by (simp add: map_at_def map_of_SomeD)

lemma smaller_key_first:
  assumes "map_at m k1 = Some v1" and "map_at m k2 = Some v2" and "k1 < k2"
  shows "\<exists>xs ys zs. entries m = xs @ (k1, v1) # ys @ (k2, v2) # zs"
proof -
  from assms(1) have "(k1, v1) \<in> set (entries m)" by (rule entries_present)
  then obtain xs rest where split: "entries m = xs @ (k1, v1) # rest"
    by (auto dest: split_list)
  from assms(2) have "(k2, v2) \<in> set (entries m)" by (rule entries_present)
  with split assms(3) have "(k2, v2) \<in> set xs \<or> (k2, v2) \<in> set rest" by auto
  moreover have "(k2, v2) \<notin> set xs"
  proof
    assume "(k2, v2) \<in> set xs"
    with entries_sorted [of m] split have "k2 < k1"
      by (auto simp: sorted_wrt_append)
    with assms(3) show False by simp
  qed
  ultimately have "(k2, v2) \<in> set rest" by simp
  then obtain ys zs where "rest = ys @ (k2, v2) # zs" by (auto dest: split_list)
  with split show ?thesis by auto
qed

text \<open>
  C6: the attribute map lists its entries in ascending key order, whatever the order of
  the \<^verbatim>\<open>set_attribute\<close> calls (two calls with different keys commute). On a node
  that owns a tree of depth at most \<open>d\<close>, \<^verbatim>\<open>to_string\<close> returns with fuel
  \<open>d\<close>, and its output starts with \<open><\<close>, the name and the entries in that order:
  of two attributes of the node, the one with the smaller key is written first.
\<close>

theorem attributes_render_in_key_order:
  "sorted_wrt (<) (map fst (entries (attributes n)))
   \<and> (cells h this = Some n \<and> subtree d h this = Some t
        \<longrightarrow> (\<exists>rest. to_string U d h this =
               Some (''<'' @ name n
                     @ concat (map (attribute_to_string U) (entries (attributes n))) @ rest)))
   \<and> (map_at (attributes n) k1 = Some v1 \<and> map_at (attributes n) k2 = Some v2 \<and> k1 < k2
        \<and> cells h this = Some n \<and> subtree d h this = Some t
        \<longrightarrow> (\<exists>xs ys zs rest.
               entries (attributes n) = xs @ (k1, v1) # ys @ (k2, v2) # zs
               \<and> to_string U d h this =
                   Some (''<'' @ name n @ concat (map (attribute_to_string U) xs)
                         @ attribute_to_string U (k1, v1)
                         @ concat (map (attribute_to_string U) ys)
                         @ attribute_to_string U (k2, v2)
                         @ concat (map (attribute_to_string U) zs) @ rest)))
   \<and> (k1 \<noteq> k2
        \<longrightarrow> set_attribute (set_attribute n k1 v1) k2 v2
            = set_attribute (set_attribute n k2 v2) k1 v1)"
proof (intro conjI impI)
  show "sorted_wrt (<) (map fst (entries (attributes n)))" by (rule entries_sorted)
next
  assume a: "cells h this = Some n \<and> subtree d h this = Some t"
  then obtain out where "to_string U d h this = Some out"
    using to_string_returns by blast
  with a show "\<exists>rest. to_string U d h this =
      Some (''<'' @ name n @ concat (map (attribute_to_string U) (entries (attributes n))) @ rest)"
    using to_string_starts by blast
next
  assume a: "map_at (attributes n) k1 = Some v1 \<and> map_at (attributes n) k2 = Some v2 \<and> k1 < k2
      \<and> cells h this = Some n \<and> subtree d h this = Some t"
  then obtain xs ys zs where e: "entries (attributes n) = xs @ (k1, v1) # ys @ (k2, v2) # zs"
    using smaller_key_first by blast
  from a obtain out where "to_string U d h this = Some out"
    using to_string_returns by blast
  with a obtain rest where "to_string U d h this = Some (''<'' @ name n
      @ concat (map (attribute_to_string U) (entries (attributes n))) @ rest)"
    using to_string_starts by blast
  with e have "to_string U d h this =
      Some (''<'' @ name n @ concat (map (attribute_to_string U) xs)
            @ attribute_to_string U (k1, v1)
            @ concat (map (attribute_to_string U) ys)
            @ attribute_to_string U (k2, v2)
            @ concat (map (attribute_to_string U) zs) @ rest)"
    by simp
  with e show "\<exists>xs ys zs rest.
               entries (attributes n) = xs @ (k1, v1) # ys @ (k2, v2) # zs
               \<and> to_string U d h this =
                   Some (''<'' @ name n @ concat (map (attribute_to_string U) xs)
                         @ attribute_to_string U (k1, v1)
                         @ concat (map (attribute_to_string U) ys)
                         @ attribute_to_string U (k2, v2)
                         @ concat (map (attribute_to_string U) zs) @ rest)"
    by blast
next
  assume "k1 \<noteq> k2"
  then show "set_attribute (set_attribute n k1 v1) k2 v2
            = set_attribute (set_attribute n k2 v2) k1 v1"
    by (rule set_attribute_commute)
qed

lemma entries_b_then_a: "entries (attributes node_b_then_a) = [(''a'', ''1''), (''b'', ''2'')]"
  by (simp add: node_b_then_a_def set_attribute_def XmlNode_ctor_def rfind_def
      map_assign.rep_eq map_empty.rep_eq)

lemma to_string_b_then_a:
  "to_string spec_utils (Suc 0) heap_b_then_a 0
     = Some (''<n a='' @ [CHR 0x27] @ ''1'' @ [CHR 0x27] @ '' b='' @ [CHR 0x27] @ ''2''
             @ [CHR 0x27] @ ''/>'')"
  by (simp add: heap_b_then_a_def entries_b_then_a has_children_def attribute_to_string_def
      sanitize_spec_1 sanitize_spec_2 sanitize_spec_Nil)
    (simp add: node_b_then_a_def set_attribute_def XmlNode_ctor_def rfind_def sanitize_spec_Nil)

theorem attributes_render_in_key_order_witness:
  "cells heap_b_then_a 0 = Some node_b_then_a
   \<and> subtree (Suc 0) heap_b_then_a 0 = Some (Tree ''n'' (attributes node_b_then_a) [] [] [])
   \<and> map_at (attributes node_b_then_a) ''a'' = Some ''1''
   \<and> map_at (attributes node_b_then_a) ''b'' = Some ''2''
   \<and> (''a'' :: string) < ''b''
   \<and> to_string spec_utils (Suc 0) heap_b_then_a 0
       = Some (''<n a='' @ [CHR 0x27] @ ''1'' @ [CHR 0x27] @ '' b='' @ [CHR 0x27] @ ''2''
               @ [CHR 0x27] @ ''/>'')
   \<and> (\<exists>xs ys zs rest.
         entries (attributes node_b_then_a) = xs @ (''a'', ''1'') # ys @ (''b'', ''2'') # zs
         \<and> to_string spec_utils (Suc 0) heap_b_then_a 0
           = Some (''<'' @ name node_b_then_a @ concat (map (attribute_to_string spec_utils) xs)
               @ attribute_to_string spec_utils (''a'', ''1'')
               @ concat (map (attribute_to_string spec_utils) ys)
               @ attribute_to_string spec_utils (''b'', ''2'')
               @ concat (map (attribute_to_string spec_utils) zs) @ rest))
   \<and> node_b_then_a = node_a_then_b"
proof -
  let ?t = "Tree ''n'' (attributes node_b_then_a) [] [] []"
  have c: "cells heap_b_then_a 0 = Some node_b_then_a" by (simp add: heap_b_then_a_def)
  have s: "subtree (Suc 0) heap_b_then_a 0 = Some ?t"
    by (simp add: heap_b_then_a_def)
      (simp add: node_b_then_a_def set_attribute_def XmlNode_ctor_def rfind_def)
  have a: "map_at (attributes node_b_then_a) ''a'' = Some ''1''"
    and b: "map_at (attributes node_b_then_a) ''b'' = Some ''2''"
    by (simp_all add: map_at_def entries_b_then_a)
  have lt: "(''a'' :: string) < ''b''" by simp
  note out = to_string_b_then_a
  note T = attributes_render_in_key_order
    [where n = node_b_then_a and h = heap_b_then_a and this = 0 and U = spec_utils
      and d = "Suc 0" and t = ?t and ?k1.0 = "''a''" and ?v1.0 = "''1''" and ?k2.0 = "''b''"
      and ?v2.0 = "''2''"]
  from T c s a b lt have ex: "\<exists>xs ys zs rest.
         entries (attributes node_b_then_a) = xs @ (''a'', ''1'') # ys @ (''b'', ''2'') # zs
         \<and> to_string spec_utils (Suc 0) heap_b_then_a 0
           = Some (''<'' @ name node_b_then_a @ concat (map (attribute_to_string spec_utils) xs)
               @ attribute_to_string spec_utils (''a'', ''1'')
               @ concat (map (attribute_to_string spec_utils) ys)
               @ attribute_to_string spec_utils (''b'', ''2'')
               @ concat (map (attribute_to_string spec_utils) zs) @ rest)"
    by blast
  have ne: "(''b'' :: string) \<noteq> ''a''" by simp
  from attributes_render_in_key_order
    [where n = "XmlNode_ctor ''n'' None" and ?k1.0 = "''b''" and ?v1.0 = "''2''"
      and ?k2.0 = "''a''" and ?v2.0 = "''1''"] ne
  have eq: "node_b_then_a = node_a_then_b"
    unfolding node_b_then_a_def node_a_then_b_def by blast
  from c s a b lt out ex eq show ?thesis by blast
qed

subsection \<open>The namespace attribute\<close>

lemma sanitize_Nil:
  "is_valid_utf8 U [] \<Longrightarrow> remove_invalid_xml_chars U [] = [] \<Longrightarrow> sanitize U [] enc = []"
  by (simp add: sanitize_def c_str_def xml_escape_Nil)

text \<open>
  C10: the two-string constructor stores the attribute \<open>xmlns\<close> whatever the
  namespace, the empty string included; such a node is written with \<^verbatim>\<open>xmlns=''\<close>
  (the collaborators leaving the empty string as it is), whereas the one-string
  constructor on a name with no separator creates no \<open>xmlns\<close> attribute and the node is
  written without one.
\<close>

theorem XmlNode_ctor_ns_always_stores_xmlns:
  "map_at (attributes (XmlNode_ctor_ns xmlns nm p)) ''xmlns'' = Some xmlns
   \<and> entries (attributes (XmlNode_ctor_ns [] nm p)) = [(''xmlns'', [])]
   \<and> (is_valid_utf8 U [] \<and> remove_invalid_xml_chars U [] = []
        \<and> cells h this = Some (XmlNode_ctor_ns [] nm p)
        \<longrightarrow> to_string U (Suc fuel) h this
            = Some (''<'' @ nm @ '' xmlns='' @ [CHR 0x27, CHR 0x27] @ ''/>''))
   \<and> (CHR 0x01 \<notin> set nm
        \<longrightarrow> map_at (attributes (XmlNode_ctor nm p)) ''xmlns'' = None
          \<and> entries (attributes (XmlNode_ctor nm p)) = [])
   \<and> (CHR 0x01 \<notin> set nm \<and> is_valid_utf8 U [] \<and> remove_invalid_xml_chars U [] = []
        \<and> cells h this = Some (XmlNode_ctor nm p)
        \<longrightarrow> to_string U (Suc fuel) h this = Some (''<'' @ nm @ ''/>''))"
proof (intro conjI impI)
  show "map_at (attributes (XmlNode_ctor_ns xmlns nm p)) ''xmlns'' = Some xmlns"
    by (simp add: XmlNode_ctor_ns_def map_at_assign)
  show "entries (attributes (XmlNode_ctor_ns [] nm p)) = [(''xmlns'', [])]"
    by (simp add: XmlNode_ctor_ns_def entries_xmlns)
next
  assume a: "is_valid_utf8 U [] \<and> remove_invalid_xml_chars U [] = []
      \<and> cells h this = Some (XmlNode_ctor_ns [] nm p)"
  then have s: "sanitize U [] default_encoding = []" by (simp add: sanitize_Nil)
  from a have "to_string U (Suc fuel) h this =
      Some ((''<'' @ name (XmlNode_ctor_ns [] nm p)
             @ concat (map (attribute_to_string U) (entries (attributes (XmlNode_ctor_ns [] nm p))))
             @ ''/>'') @ sanitize U (tail (XmlNode_ctor_ns [] nm p)) default_encoding)"
    by (intro to_string_leaf) (simp_all add: XmlNode_ctor_ns_def)
  then show "to_string U (Suc fuel) h this
      = Some (''<'' @ nm @ '' xmlns='' @ [CHR 0x27, CHR 0x27] @ ''/>'')"
    by (simp add: XmlNode_ctor_ns_def entries_xmlns attribute_to_string_def s
        del: to_string.simps)
next
  assume "CHR 0x01 \<notin> set nm"
  then have r: "rfind nm (CHR 0x01) = None" by (rule rfind_absent)
  show "map_at (attributes (XmlNode_ctor nm p)) ''xmlns'' = None"
    by (simp add: XmlNode_ctor_def r map_at_empty)
  show "entries (attributes (XmlNode_ctor nm p)) = []"
    by (simp add: XmlNode_ctor_def r map_empty.rep_eq)
next
  assume a: "CHR 0x01 \<notin> set nm \<and> is_valid_utf8 U [] \<and> remove_invalid_xml_chars U [] = []
      \<and> cells h this = Some (XmlNode_ctor nm p)"
  then have r: "rfind nm (CHR 0x01) = None" by (simp add: rfind_absent)
  from a have s: "sanitize U [] default_encoding = []" by (simp add: sanitize_Nil)
  from a have "to_string U (Suc fuel) h this =
      Some ((''<'' @ name (XmlNode_ctor nm p)
             @ concat (map (attribute_to_string U) (entries (attributes (XmlNode_ctor nm p))))
             @ ''/>'') @ sanitize U (tail (XmlNode_ctor nm p)) default_encoding)"
    by (intro to_string_leaf) (simp_all add: XmlNode_ctor_def r)
  then show "to_string U (Suc fuel) h this = Some (''<'' @ nm @ ''/>'')"
    by (simp add: XmlNode_ctor_def r map_empty.rep_eq s del: to_string.simps)
qed

theorem XmlNode_ctor_ns_always_stores_xmlns_witness:
  "is_valid_utf8 spec_utils [] \<and> remove_invalid_xml_chars spec_utils [] = []
   \<and> cells heap_empty_ns 0 = Some (XmlNode_ctor_ns [] ''x'' None)
   \<and> map_at (attributes (XmlNode_ctor_ns [] ''x'' None)) ''xmlns'' = Some []
   \<and> to_string spec_utils (Suc 0) heap_empty_ns 0
       = Some (''<x xmlns='' @ [CHR 0x27, CHR 0x27] @ ''/>'')
   \<and> CHR 0x01 \<notin> set ''x''
   \<and> cells leaf_plain 0 = Some (XmlNode_ctor ''a'' None)
   \<and> map_at (attributes (XmlNode_ctor ''a'' None)) ''xmlns'' = None
   \<and> to_string spec_utils (Suc 0) leaf_plain 0 = Some ''<a/>''"
proof -
  have v: "is_valid_utf8 spec_utils []" and e: "remove_invalid_xml_chars spec_utils [] = []"
    by (simp_all add: spec_utils_def spec_is_valid_utf8_def spec_remove_invalid_xml_chars_def)
  have c: "cells heap_empty_ns 0 = Some (XmlNode_ctor_ns [] ''x'' None)"
    by (simp add: heap_empty_ns_def)
  have c': "cells leaf_plain 0 = Some (XmlNode_ctor ''a'' None)"
    by (simp add: leaf_plain_def)
  have x: "CHR 0x01 \<notin> set ''x''" and a: "CHR 0x01 \<notin> set ''a''" by simp_all
  note T = XmlNode_ctor_ns_always_stores_xmlns
    [of "[]" "''x''" None spec_utils heap_empty_ns 0 0]
  note T' = XmlNode_ctor_ns_always_stores_xmlns
    [of _ "''a''" None spec_utils leaf_plain 0 0]
  from T have 1: "map_at (attributes (XmlNode_ctor_ns [] ''x'' None)) ''xmlns'' = Some []"
    by blast
  from T v e c have "to_string spec_utils (Suc 0) heap_empty_ns 0
      = Some (''<'' @ ''x'' @ '' xmlns='' @ [CHR 0x27, CHR 0x27] @ ''/>'')"
    by blast
  then have 2: "to_string spec_utils (Suc 0) heap_empty_ns 0
      = Some (''<x xmlns='' @ [CHR 0x27, CHR 0x27] @ ''/>'')"
    by (simp del: to_string.simps)
  from T' a have 3: "map_at (attributes (XmlNode_ctor ''a'' None)) ''xmlns'' = None"
    by blast
  from T' a v e c' have "to_string spec_utils (Suc 0) leaf_plain 0 = Some (''<'' @ ''a'' @ ''/>'')"
    by blast
  then have 4: "to_string spec_utils (Suc 0) leaf_plain 0 = Some ''<a/>''"
    by (simp del: to_string.simps)
  from v e c 1 2 x c' 3 4 show ?thesis by blast
qed

subsection \<open>Copying a subtree\<close>

lemma add_child_apart:
  "cells h child = Some c \<Longrightarrow> cells h this = Some t \<Longrightarrow> child \<noteq> this
     \<Longrightarrow> add_child h this child =
           Some (h\<lparr>cells := (cells h)(child \<mapsto> c\<lparr>parent := Some this\<rparr>,
                                     this \<mapsto> t\<lparr>children := children t @ [child]\<rparr>)\<rparr>, child)"
  by (simp add: add_child_def)


lemma copy_children_correct:
  assumes cp: "\<And>s p c tc. subtree d h0 c = Some tc
      \<Longrightarrow> (\<forall>b. cells h0 b \<noteq> None \<longrightarrow> cells s b = cells h0 b)
      \<Longrightarrow> n0 \<le> p \<Longrightarrow> p < next_free s \<Longrightarrow> heap_ok s
      \<Longrightarrow> \<exists>s'. cp s p c = Some s' \<and> constructed s p s' \<and> subtree d s' p = Some tc"
    and h0: "\<forall>b\<ge>n0. cells h0 b = None"
    and bounds: "n0 \<le> this" "this < m"
  shows "list_all2 (\<lambda>c tc. subtree d h0 c = Some tc) cs ts
    \<Longrightarrow> (\<forall>b. cells h0 b \<noteq> None \<longrightarrow> cells s b = cells h0 b)
    \<Longrightarrow> m \<le> next_free s \<Longrightarrow> heap_ok s
    \<Longrightarrow> cells s this = Some nd \<Longrightarrow> (\<forall>c\<in>set (children nd). m \<le> c)
    \<Longrightarrow> (\<forall>b\<ge>m. \<forall>n. cells s b = Some n \<longrightarrow> (\<forall>c\<in>set (children n). m \<le> c))
    \<Longrightarrow> list_all2 (\<lambda>p tc. subtree d s p = Some tc) (children nd) ts0
    \<Longrightarrow> \<exists>s' nd'. copy_children cp s this cs = Some s'
          \<and> next_free s \<le> next_free s' \<and> heap_ok s'
          \<and> (\<forall>b<next_free s. b \<noteq> this \<longrightarrow> cells s' b = cells s b)
          \<and> cells s' this = Some nd' \<and> nd'\<lparr>children := children nd\<rparr> = nd
          \<and> (\<forall>c\<in>set (children nd'). m \<le> c)
          \<and> (\<forall>b\<ge>m. \<forall>n. cells s' b = Some n \<longrightarrow> (\<forall>c\<in>set (children n). m \<le> c))
          \<and> list_all2 (\<lambda>p tc. subtree d s' p = Some tc) (children nd') (ts0 @ ts)"
proof (induction cs arbitrary: s nd ts ts0)
  case Nil
  then show ?case by simp
next
  case (Cons c cs)
  from Cons.prems(1) obtain tc ts' where ts: "ts = tc # ts'"
    and tc: "subtree d h0 c = Some tc"
    and ts': "list_all2 (\<lambda>c tc. subtree d h0 c = Some tc) cs ts'"
    by (auto simp: list_all2_Cons1)
  note old = Cons.prems(2) and m = Cons.prems(3) and ok = Cons.prems(4)
    and nd = Cons.prems(5) and kids = Cons.prems(6) and closed = Cons.prems(7)
    and earlier = Cons.prems(8)
  define p where "p = next_free s"
  define sb where "sb = s\<lparr>next_free := Suc p\<rparr>"
  have sb: "cells sb = cells s" "next_free sb = Suc p" by (simp_all add: sb_def)
  from bounds(2) m p_def have "this < p" "m \<le> p" by simp_all
  have "heap_ok sb" using ok by (simp add: heap_ok_def sb p_def)
  moreover from old have "\<forall>b. cells h0 b \<noteq> None \<longrightarrow> cells sb b = cells h0 b" by (simp add: sb)
  moreover from bounds(1) \<open>this < p\<close> have "n0 \<le> p" by simp
  moreover have "p < next_free sb" by (simp add: sb)
  ultimately obtain s1 where s1: "cp sb p c = Some s1" and con: "constructed sb p s1"
    and sub1: "subtree d s1 p = Some tc"
    using cp [OF tc] by blast
  from con obtain n' where nf1: "Suc p \<le> next_free s1" and ok1: "heap_ok s1"
    and frame1: "\<forall>b<Suc p. b \<noteq> p \<longrightarrow> cells s1 b = cells s b"
    and n': "cells s1 p = Some n'" "parent n' = None" "\<forall>c\<in>set (children n'). Suc p \<le> c"
    and closed1: "\<forall>b\<ge>Suc p. \<forall>n. cells s1 b = Some n \<longrightarrow> (\<forall>c\<in>set (children n). Suc p \<le> c)"
    unfolding constructed_def sb by blast
  from frame1 \<open>this < p\<close> nd have this1: "cells s1 this = Some nd" by simp
  define nd2 where "nd2 = nd\<lparr>children := children nd @ [p]\<rparr>"
  define s2 where "s2 = s1\<lparr>cells := (cells s1)(p \<mapsto> n'\<lparr>parent := Some this\<rparr>, this \<mapsto> nd2)\<rparr>"
  from \<open>this < p\<close> have "p \<noteq> this" by simp
  with n'(1) this1 have add: "add_child s1 this p = Some (s2, p)"
    by (simp add: add_child_apart s2_def nd2_def)
  have mk: "make_unique (\<lambda>h' p. cp h' p c) s = Some (s1, p)"
    using s1 by (simp add: make_unique_def p_def sb_def Let_def)
  have cells2: "cells s2 b = (if b = this then Some nd2 else if b = p
      then Some (n'\<lparr>parent := Some this\<rparr>) else cells s1 b)" for b
    by (simp add: s2_def)
  have nf2: "next_free s2 = next_free s1" by (simp add: s2_def)
  have below: "cells s2 b = cells s b" if "b < p" "b \<noteq> this" for b
    using that frame1 by (simp add: cells2)
  have old2: "\<forall>b. cells h0 b \<noteq> None \<longrightarrow> cells s2 b = cells h0 b"
  proof (intro allI impI)
    fix b assume b: "cells h0 b \<noteq> None"
    with h0 have "b < n0" by (metis not_le_imp_less)
    with bounds(1) \<open>this < p\<close> have "b < p" "b \<noteq> this" by simp_all
    with below old b show "cells s2 b = cells h0 b" by simp
  qed
  have m2: "m \<le> next_free s2" using \<open>m \<le> p\<close> nf1 nf2 by simp
  have ok2: "heap_ok s2"
    unfolding heap_ok_def
  proof (intro allI impI)
    fix a assume "next_free s2 \<le> a"
    with nf2 nf1 \<open>this < p\<close> have "a \<noteq> this" "a \<noteq> p" "next_free s1 \<le> a" by simp_all
    with ok1 show "cells s2 a = None" by (simp add: cells2 heap_ok_def)
  qed
  have nd2c: "cells s2 this = Some nd2" by (simp add: cells2)
  have kids2: "\<forall>c\<in>set (children nd2). m \<le> c"
    using kids \<open>m \<le> p\<close> by (simp add: nd2_def)
  have closed2: "\<forall>b\<ge>m. \<forall>n. cells s2 b = Some n \<longrightarrow> (\<forall>c\<in>set (children n). m \<le> c)"
  proof (intro allI impI ballI)
    fix b n x
    assume b: "m \<le> b" and n: "cells s2 b = Some n" and x: "x \<in> set (children n)"
    from b bounds(2) have nt: "b \<noteq> this" by simp
    consider "b < p" | "b = p" | "p < b" by (rule linorder_cases)
    then show "m \<le> x"
    proof cases
      case 1
      with nt n below have "cells s b = Some n" by simp
      with closed b x show ?thesis by blast
    next
      case 2
      with n nt have "children n = children n'" by (auto simp: cells2)
      with x n'(3) \<open>m \<le> p\<close> show ?thesis by fastforce
    next
      case 3
      with n nt have "cells s1 b = Some n" by (simp add: cells2)
      with closed1 3 x have "Suc p \<le> x" by (metis Suc_leI)
      with \<open>m \<le> p\<close> show ?thesis by simp
    qed
  qed
  have keep_old: "subtree d s2 q = Some tq" if "m \<le> q" "subtree d s q = Some tq" for q tq
  proof (rule subtree_frame [where R = "{b. m \<le> b}" and h = s])
    show "subtree d s q = Some tq" by (rule that)
    show "q \<in> {b. m \<le> b}" using that by simp
  next
    fix b n assume b: "b \<in> {b. m \<le> b}" and n: "cells s b = Some n"
    from n ok have "b < p" unfolding heap_ok_def p_def by (metis not_le_imp_less option.distinct(1))
    moreover from b bounds(2) have "b \<noteq> this" by simp
    ultimately have "cells s2 b = Some n" using below n by simp
    moreover from closed b n have "set (children n) \<subseteq> {b. m \<le> b}" by auto
    ultimately show "set (children n) \<subseteq> {b. m \<le> b}
        \<and> (\<exists>n'. cells s2 b = Some n' \<and> n'\<lparr>parent := parent n\<rparr> = n)"
      by simp
  qed
  have keep_new: "subtree d s2 p = Some tc"
  proof (rule subtree_frame [where R = "{b. p \<le> b}" and h = s1])
    show "subtree d s1 p = Some tc" by (rule sub1)
    show "p \<in> {b. p \<le> b}" by simp
  next
    fix b n assume b: "b \<in> {b. p \<le> b}" and n: "cells s1 b = Some n"
    from b \<open>this < p\<close> have nt: "b \<noteq> this" by simp
    show "set (children n) \<subseteq> {b. p \<le> b}
        \<and> (\<exists>n'. cells s2 b = Some n' \<and> n'\<lparr>parent := parent n\<rparr> = n)"
    proof (cases "b = p")
      case True
      with n n' have "n = n'" by simp
      with n'(3) True nt show ?thesis by (auto simp: cells2)
    next
      case False
      with b have "Suc p \<le> b" by simp
      with closed1 n have "\<forall>c\<in>set (children n). Suc p \<le> c" by blast
      with False nt n show ?thesis by (auto simp: cells2)
    qed
  qed
  have done2: "list_all2 (\<lambda>p tc. subtree d s2 p = Some tc) (children nd2) (ts0 @ [tc])"
  proof -
    from earlier have "list_all2 (\<lambda>p tc. subtree d s2 p = Some tc) (children nd) ts0"
    proof (rule list.rel_mono_strong)
      fix q tq assume "q \<in> set (children nd)" and "subtree d s q = Some tq"
      with kids show "subtree d s2 q = Some tq" by (auto intro: keep_old)
    qed
    with keep_new show ?thesis by (simp add: nd2_def list_all2_appendI)
  qed
  from Cons.IH [OF ts' old2 m2 ok2 nd2c kids2 closed2 done2]
  obtain s' nd' where rest: "copy_children cp s2 this cs = Some s'"
    and nf': "next_free s2 \<le> next_free s'" and ok': "heap_ok s'"
    and frame': "\<forall>b<next_free s2. b \<noteq> this \<longrightarrow> cells s' b = cells s2 b"
    and nd': "cells s' this = Some nd'" "nd'\<lparr>children := children nd2\<rparr> = nd2"
      "\<forall>c\<in>set (children nd'). m \<le> c"
    and closed': "\<forall>b\<ge>m. \<forall>n. cells s' b = Some n \<longrightarrow> (\<forall>c\<in>set (children n). m \<le> c)"
    and all: "list_all2 (\<lambda>p tc. subtree d s' p = Some tc) (children nd') ((ts0 @ [tc]) @ ts')"
    by blast
  have "copy_children cp s this (c # cs) = Some s'"
    using mk add rest by simp
  moreover have "next_free s \<le> next_free s'"
    using nf' nf2 nf1 p_def by simp
  moreover have "\<forall>b<next_free s. b \<noteq> this \<longrightarrow> cells s' b = cells s b"
  proof (intro allI impI)
    fix b assume b: "b < next_free s" "b \<noteq> this"
    then have "b < next_free s2" using nf2 nf1 p_def by simp
    with frame' b have "cells s' b = cells s2 b" by simp
    with below b show "cells s' b = cells s b" by (simp add: p_def)
  qed
  moreover have "nd'\<lparr>children := children nd\<rparr> = nd"
  proof -
    from nd'(2) have "(nd'\<lparr>children := children nd2\<rparr>)\<lparr>children := children nd\<rparr>
        = nd2\<lparr>children := children nd\<rparr>"
      by simp
    then show ?thesis by (simp add: nd2_def)
  qed
  moreover from all ts have "list_all2 (\<lambda>p tc. subtree d s' p = Some tc) (children nd') (ts0 @ ts)"
    by simp
  ultimately show ?case using ok' nd' closed' by blast
qed


lemma XmlNode_copy_correct:
  assumes h0: "\<forall>b\<ge>n0. cells h0 b = None"
  shows "subtree d h0 node = Some t \<Longrightarrow> d \<le> fuel
    \<Longrightarrow> (\<forall>b. cells h0 b \<noteq> None \<longrightarrow> cells s b = cells h0 b)
    \<Longrightarrow> n0 \<le> this \<Longrightarrow> this < next_free s \<Longrightarrow> heap_ok s
    \<Longrightarrow> \<exists>s'. XmlNode_copy fuel s this node = Some s' \<and> constructed s this s'
           \<and> subtree d s' this = Some t"
proof (induction fuel arbitrary: d node t s this)
  case 0
  then show ?case by simp
next
  case (Suc fuel)
  from Suc.prems(1) obtain d' where d: "d = Suc d'" by (cases d) simp_all
  with Suc.prems(2) have d': "d' \<le> fuel" by simp
  from Suc.prems(1) have "subtree (Suc d') h0 node = Some t" by (simp only: d)
  then obtain n ts where n: "cells h0 node = Some n"
    and ts: "list_all2 (\<lambda>c tc. subtree d' h0 c = Some tc) (children n) ts"
    and t: "t = Tree (name n) (attributes n) (inner n) (tail n) ts"
    unfolding subtree_Suc_Some by blast
  note old = Suc.prems(3) and lo = Suc.prems(4) and hi = Suc.prems(5) and ok = Suc.prems(6)
  from old n have sn: "cells s node = Some n" by simp
  define nd where "nd = \<lparr>name = name n, parent = None, attributes = attributes n, children = [],
      inner = inner n, tail = tail n\<rparr>"
  define si where "si = s\<lparr>cells := (cells s)(this \<mapsto> nd)\<rparr>"
  have unfold: "XmlNode_copy (Suc fuel) s this node
      = copy_children (XmlNode_copy fuel) si this (children n)"
    by (simp add: sn si_def nd_def)
  have cp: "\<exists>s'. XmlNode_copy fuel s p c = Some s' \<and> constructed s p s' \<and> subtree d' s' p = Some tc"
    if "subtree d' h0 c = Some tc" "\<forall>b. cells h0 b \<noteq> None \<longrightarrow> cells s b = cells h0 b"
      "n0 \<le> p" "p < next_free s" "heap_ok s" for s p c tc
    using Suc.IH [OF that(1) d' that(2-5)] .
  have old_i: "\<forall>b. cells h0 b \<noteq> None \<longrightarrow> cells si b = cells h0 b"
  proof (intro allI impI)
    fix b assume b: "cells h0 b \<noteq> None"
    with h0 have "b < n0" by (metis not_le_imp_less)
    with lo have "b \<noteq> this" by simp
    with old b show "cells si b = cells h0 b" by (simp add: si_def)
  qed
  have ok_i: "heap_ok si" using ok hi by (auto simp: heap_ok_def si_def)
  have closed_i: "\<forall>b\<ge>next_free s. \<forall>n. cells si b = Some n
      \<longrightarrow> (\<forall>c\<in>set (children n). next_free s \<le> c)"
    using ok hi by (auto simp: heap_ok_def si_def)
  have "\<exists>s' nd'. copy_children (XmlNode_copy fuel) si this (children n) = Some s'
          \<and> next_free si \<le> next_free s' \<and> heap_ok s'
          \<and> (\<forall>b<next_free si. b \<noteq> this \<longrightarrow> cells s' b = cells si b)
          \<and> cells s' this = Some nd' \<and> nd'\<lparr>children := children nd\<rparr> = nd
          \<and> (\<forall>c\<in>set (children nd'). next_free s \<le> c)
          \<and> (\<forall>b\<ge>next_free s. \<forall>n. cells s' b = Some n
                \<longrightarrow> (\<forall>c\<in>set (children n). next_free s \<le> c))
          \<and> list_all2 (\<lambda>p tc. subtree d' s' p = Some tc) (children nd') ([] @ ts)"
  proof (rule copy_children_correct [where ?h0.0 = h0 and ?n0.0 = n0])
    show "\<exists>s'. XmlNode_copy fuel s p c = Some s' \<and> constructed s p s'
        \<and> subtree d' s' p = Some tc"
      if "subtree d' h0 c = Some tc" "\<forall>b. cells h0 b \<noteq> None \<longrightarrow> cells s b = cells h0 b"
        "n0 \<le> p" "p < next_free s" "heap_ok s" for s p c tc
      using that by (rule cp)
    show "\<forall>b\<ge>n0. cells h0 b = None" by (rule h0)
    show "n0 \<le> this" by (rule lo)
    show "this < next_free s" by (rule hi)
    show "list_all2 (\<lambda>c tc. subtree d' h0 c = Some tc) (children n) ts" by (rule ts)
    show "\<forall>b. cells h0 b \<noteq> None \<longrightarrow> cells si b = cells h0 b" by (rule old_i)
    show "next_free s \<le> next_free si" by (simp add: si_def)
    show "heap_ok si" by (rule ok_i)
    show "cells si this = Some nd" by (simp add: si_def)
    show "\<forall>c\<in>set (children nd). next_free s \<le> c" by (simp add: nd_def)
    show "\<forall>b\<ge>next_free s. \<forall>n. cells si b = Some n
        \<longrightarrow> (\<forall>c\<in>set (children n). next_free s \<le> c)"
      by (rule closed_i)
    show "list_all2 (\<lambda>p tc. subtree d' si p = Some tc) (children nd) []"
      by (simp add: nd_def)
  qed
  then obtain s' nd' where run: "copy_children (XmlNode_copy fuel) si this (children n) = Some s'"
    and nf: "next_free si \<le> next_free s'" and ok': "heap_ok s'"
    and frame: "\<forall>b<next_free si. b \<noteq> this \<longrightarrow> cells s' b = cells si b"
    and nd': "cells s' this = Some nd'" "nd'\<lparr>children := children nd\<rparr> = nd"
      "\<forall>c\<in>set (children nd'). next_free s \<le> c"
    and closed: "\<forall>b\<ge>next_free s. \<forall>n. cells s' b = Some n
        \<longrightarrow> (\<forall>c\<in>set (children n). next_free s \<le> c)"
    and all: "list_all2 (\<lambda>p tc. subtree d' s' p = Some tc) (children nd') ts"
    by auto
  from same_but_children [OF nd'(2)]
  have fields: "name nd' = name n" "attributes nd' = attributes n"
    "inner nd' = inner n" "tail nd' = tail n" "parent nd' = None"
    by (simp_all add: nd_def)
  have "constructed s this s'"
    unfolding constructed_def
  proof (intro conjI)
    show "next_free s \<le> next_free s'" using nf by (simp add: si_def)
    show "heap_ok s'" by (rule ok')
    show "\<forall>b<next_free s. b \<noteq> this \<longrightarrow> cells s' b = cells s b"
      using frame by (simp add: si_def)
    show "\<exists>n'. cells s' this = Some n' \<and> parent n' = None
        \<and> (\<forall>c\<in>set (children n'). next_free s \<le> c)"
      using nd'(1,3) fields(5) by blast
    show "\<forall>b\<ge>next_free s. \<forall>n. cells s' b = Some n
        \<longrightarrow> (\<forall>c\<in>set (children n). next_free s \<le> c)"
      by (rule closed)
  qed
  moreover have "subtree d s' this = Some t"
    unfolding d subtree_Suc_Some using nd'(1) all fields t by auto
  ultimately show ?case using unfold run by simp
qed

lemma heap_ok_below: "heap_ok h \<Longrightarrow> cells h b \<noteq> None \<Longrightarrow> b < next_free h"
  unfolding heap_ok_def by (metis not_le_imp_less)

lemma make_unique_copy_correct:
  assumes ok: "heap_ok h" and sub: "subtree d h node = Some t" and fuel: "d \<le> fuel"
  shows "\<exists>h'. make_unique (\<lambda>h' p. XmlNode_copy fuel h' p node) h = Some (h', next_free h)
           \<and> constructed (h\<lparr>next_free := Suc (next_free h)\<rparr>) (next_free h) h'
           \<and> subtree d h' (next_free h) = Some t"
proof -
  let ?p = "next_free h"
  let ?s = "h\<lparr>next_free := Suc ?p\<rparr>"
  have "\<exists>s'. XmlNode_copy fuel ?s ?p node = Some s' \<and> constructed ?s ?p s'
      \<and> subtree d s' ?p = Some t"
  proof (rule XmlNode_copy_correct [where ?h0.0 = h and ?n0.0 = ?p])
    show "\<forall>b\<ge>?p. cells h b = None" using ok by (simp add: heap_ok_def)
    show "subtree d h node = Some t" by (rule sub)
    show "d \<le> fuel" by (rule fuel)
    show "\<forall>b. cells h b \<noteq> None \<longrightarrow> cells ?s b = cells h b" by simp
    show "?p \<le> ?p" by simp
    show "?p < next_free ?s" by simp
    show "heap_ok ?s" using ok by (simp add: heap_ok_def)
  qed
  then show ?thesis by (auto simp: make_unique_def Let_def)
qed

text \<open>What a copy leaves, in terms of the heap before it.\<close>

lemma make_unique_copy_frame:
  assumes ok: "heap_ok h" and sub: "subtree d h node = Some t" and fuel: "d \<le> fuel"
  shows "\<exists>h' n'. make_unique (\<lambda>h' p. XmlNode_copy fuel h' p node) h = Some (h', next_free h)
           \<and> heap_ok h' \<and> next_free h < next_free h'
           \<and> (\<forall>b<next_free h. cells h' b = cells h b)
           \<and> cells h' (next_free h) = Some n' \<and> parent n' = None
           \<and> (\<forall>b\<ge>next_free h. \<forall>n. cells h' b = Some n
                 \<longrightarrow> (\<forall>c\<in>set (children n). next_free h \<le> c))
           \<and> subtree d h' (next_free h) = Some t
           \<and> subtree d h' node = Some t"
proof -
  let ?p = "next_free h"
  from make_unique_copy_correct [OF assms] obtain h'
    where run: "make_unique (\<lambda>h' p. XmlNode_copy fuel h' p node) h = Some (h', ?p)"
      and con: "constructed (h\<lparr>next_free := Suc ?p\<rparr>) ?p h'"
      and copy: "subtree d h' ?p = Some t"
    by blast
  from con obtain n' where nf: "Suc ?p \<le> next_free h'" and ok': "heap_ok h'"
    and frame: "\<forall>b<Suc ?p. b \<noteq> ?p \<longrightarrow> cells h' b = cells h b"
    and n': "cells h' ?p = Some n'" "parent n' = None" "\<forall>c\<in>set (children n'). Suc ?p \<le> c"
    and closed: "\<forall>b\<ge>Suc ?p. \<forall>n. cells h' b = Some n \<longrightarrow> (\<forall>c\<in>set (children n). Suc ?p \<le> c)"
    unfolding constructed_def by auto
  have old: "\<forall>b<?p. cells h' b = cells h b" using frame by simp
  have closed': "\<forall>b\<ge>?p. \<forall>n. cells h' b = Some n \<longrightarrow> (\<forall>c\<in>set (children n). ?p \<le> c)"
  proof (intro allI impI ballI)
    fix b n c assume b: "?p \<le> b" and n: "cells h' b = Some n" and c: "c \<in> set (children n)"
    show "?p \<le> c"
    proof (cases "b = ?p")
      case True
      with n n' c have "Suc ?p \<le> c" by auto
      then show ?thesis by simp
    next
      case False
      with b have "Suc ?p \<le> b" by simp
      with closed n c have "Suc ?p \<le> c" by blast
      then show ?thesis by simp
    qed
  qed
  have orig: "subtree d h' node = Some t"
  proof (rule subtree_frame [where R = UNIV and h = h])
    show "subtree d h node = Some t" by (rule sub)
    show "node \<in> UNIV" by simp
  next
    fix b n assume "cells h b = Some n"
    moreover from this ok have "b < ?p" by (simp add: heap_ok_below)
    ultimately have "cells h' b = Some n" using old by simp
    then show "set (children n) \<subseteq> UNIV \<and> (\<exists>n'. cells h' b = Some n' \<and> n'\<lparr>parent := parent n\<rparr> = n)"
      by simp
  qed
  from run ok' nf old n'(1,2) closed' copy orig show ?thesis by auto
qed

lemma call_on_cells:
  "call_on h b f = Some h' \<Longrightarrow> \<exists>n. cells h b = Some n \<and> cells h' = (cells h)(b \<mapsto> f n)
     \<and> next_free h' = next_free h"
  by (auto simp: call_on_def split: option.splits)

text \<open>
  C5: copying a node (here into a newly allocated object, as \<^verbatim>\<open>make_unique<XmlNode>(node)\<close>
  does) succeeds with any fuel from \<open>d\<close> on for a subtree nested no deeper than
  \<open>d\<close>. The copy is a new object below which the heap holds the same tree as below
  the original: name, attributes, inner and tail text, and all children, recursively. The
  copy has no parent, whatever the parent of the original. Every object of the old heap, the original's
  parent pointer included, is as it was, and the copy owns new objects only. Hence a
  method \<open>f\<close> of a node, \<^verbatim>\<open>set_attribute\<close> for one, called on any new object changes no
  old object and leaves the tree below the original as it was, and called on any old
  object it changes no new object and leaves the tree below the copy as it was.
\<close>

theorem copy_is_deep_and_detached:
  assumes ok: "heap_ok h" and sub: "subtree d h node = Some t" and fuel: "d \<le> fuel"
  shows "\<exists>h' copy n'.
      make_unique (\<lambda>h' p. XmlNode_copy fuel h' p node) h = Some (h', copy)
      \<and> cells h copy = None
      \<and> subtree d h' copy = Some t
      \<and> cells h' copy = Some n' \<and> parent n' = None
      \<and> (\<forall>b. cells h b \<noteq> None \<longrightarrow> cells h' b = cells h b)
      \<and> subtree d h' node = Some t
      \<and> (\<forall>b n. cells h b = None \<and> cells h' b = Some n
            \<longrightarrow> (\<forall>c\<in>set (children n). cells h c = None))
      \<and> (\<forall>b f h''. cells h b = None \<and> call_on h' b f = Some h''
            \<longrightarrow> (\<forall>a. cells h a \<noteq> None \<longrightarrow> cells h'' a = cells h a)
              \<and> subtree d h'' node = Some t)
      \<and> (\<forall>b f h''. cells h b \<noteq> None \<and> call_on h' b f = Some h''
            \<longrightarrow> (\<forall>a. cells h a = None \<longrightarrow> cells h'' a = cells h' a)
              \<and> subtree d h'' copy = Some t)"
proof -
  let ?p = "next_free h"
  from make_unique_copy_frame [OF ok sub fuel] obtain h' n'
    where run: "make_unique (\<lambda>h' p. XmlNode_copy fuel h' p node) h = Some (h', ?p)"
      and ok': "heap_ok h'" and nf: "?p < next_free h'"
      and old: "\<forall>b<?p. cells h' b = cells h b"
      and n': "cells h' ?p = Some n'" "parent n' = None"
      and closed: "\<forall>b\<ge>?p. \<forall>n. cells h' b = Some n \<longrightarrow> (\<forall>c\<in>set (children n). ?p \<le> c)"
      and copy: "subtree d h' ?p = Some t"
      and orig: "subtree d h' node = Some t"
    by blast
  have fresh: "cells h b = None" if "?p \<le> b" for b
    using ok that by (simp add: heap_ok_def)
  have new: "?p \<le> b" if "cells h b = None" "cells h' b \<noteq> None" for b
  proof (rule ccontr)
    assume "\<not> ?p \<le> b"
    then have "b < ?p" by simp
    with old that show False by simp
  qed
  have kept: "\<forall>b. cells h b \<noteq> None \<longrightarrow> cells h' b = cells h b"
    using old ok by (simp add: heap_ok_below)
  have owns: "\<forall>b n. cells h b = None \<and> cells h' b = Some n
      \<longrightarrow> (\<forall>c\<in>set (children n). cells h c = None)"
  proof (intro allI impI ballI)
    fix b n c assume b: "cells h b = None \<and> cells h' b = Some n" and c: "c \<in> set (children n)"
    from b have "?p \<le> b" by (auto intro: new)
    with closed b c have "?p \<le> c" by blast
    then show "cells h c = None" by (rule fresh)
  qed
  have mutate_copy: "(\<forall>a. cells h a \<noteq> None \<longrightarrow> cells h'' a = cells h a)
      \<and> subtree d h'' node = Some t"
    if "cells h b = None \<and> call_on h' b f = Some h''" for b f h''
  proof -
    from that call_on_cells [of h' b _ h''] obtain nb where
      c'': "cells h'' = (cells h')(b \<mapsto> f nb)"
      by blast
    with that kept have same: "\<forall>a. cells h a \<noteq> None \<longrightarrow> cells h'' a = cells h a" by auto
    have "subtree d h'' node = Some t"
    proof (rule subtree_frame [where R = UNIV and h = h])
      show "subtree d h node = Some t" by (rule sub)
      show "node \<in> UNIV" by simp
    next
      fix a n assume "cells h a = Some n"
      with same have "cells h'' a = Some n" by simp
      then show "set (children n) \<subseteq> UNIV
          \<and> (\<exists>n'. cells h'' a = Some n' \<and> n'\<lparr>parent := parent n\<rparr> = n)"
        by simp
    qed
    with same show ?thesis by simp
  qed
  have mutate_orig: "(\<forall>a. cells h a = None \<longrightarrow> cells h'' a = cells h' a)
      \<and> subtree d h'' ?p = Some t"
    if "cells h b \<noteq> None \<and> call_on h' b f = Some h''" for b f h''
  proof -
    from that call_on_cells [of h' b _ h''] obtain nb where
      c'': "cells h'' = (cells h')(b \<mapsto> f nb)"
      by blast
    with that have same: "\<forall>a. cells h a = None \<longrightarrow> cells h'' a = cells h' a" by auto
    have "subtree d h'' ?p = Some t"
    proof (rule subtree_frame [where R = "{a. ?p \<le> a}" and h = h'])
      show "subtree d h' ?p = Some t" by (rule copy)
      show "?p \<in> {a. ?p \<le> a}" by simp
    next
      fix a n assume a: "a \<in> {a. ?p \<le> a}" and n: "cells h' a = Some n"
      from a have "cells h a = None" by (simp add: fresh)
      with same n have "cells h'' a = Some n" by simp
      moreover from closed a n have "set (children n) \<subseteq> {a. ?p \<le> a}" by auto
      ultimately show "set (children n) \<subseteq> {a. ?p \<le> a}
          \<and> (\<exists>n'. cells h'' a = Some n' \<and> n'\<lparr>parent := parent n\<rparr> = n)"
        by simp
    qed
    with same show ?thesis by simp
  qed
  from fresh have "cells h ?p = None" by simp
  with run copy n' kept orig owns mutate_copy mutate_orig show ?thesis by blast
qed

lemma ex_heap_ok: "heap_ok ex_heap"
  by (auto simp: heap_ok_def ex_heap_def)

lemma ex_heap_message: "subtree (Suc (Suc 0)) ex_heap 1 = Some ex_tree"
  by (simp add: ex_heap_def ex_tree_def)

lemma ex_heap_cells:
  "cells ex_heap 0 = Some \<lparr>name = ''stream'', parent = None, attributes = map_empty,
      children = [1], inner = [], tail = []\<rparr>"
  "cells ex_heap 1 = Some \<lparr>name = ''message'', parent = Some 0,
      attributes = map_assign map_empty ''to'' ''u@h'', children = [2], inner = [], tail = []\<rparr>"
  "cells ex_heap 3 = Some \<lparr>name = ''extra'', parent = None, attributes = map_empty,
      children = [], inner = [], tail = []\<rparr>"
  by (simp_all add: ex_heap_def)

text \<open>The copy of \<open>message\<close>, computed.\<close>

lemma ex_copy_evaluates:
  "\<exists>h'. make_unique (\<lambda>h' p. XmlNode_copy (Suc (Suc 0)) h' p 1) ex_heap = Some (h', 4)
     \<and> cells h' 4 = Some \<lparr>name = ''message'', parent = None,
                          attributes = map_assign map_empty ''to'' ''u@h'', children = [5],
                          inner = [], tail = []\<rparr>
     \<and> cells h' 5 = Some \<lparr>name = ''body'', parent = Some 4, attributes = map_empty,
                          children = [], inner = ''hi'', tail = []\<rparr>"
  by (simp add: make_unique_def ex_heap_def add_child_def Let_def)

theorem copy_is_deep_and_detached_witness:
  "heap_ok ex_heap \<and> subtree (Suc (Suc 0)) ex_heap 1 = Some ex_tree
   \<and> (\<exists>n. cells ex_heap 1 = Some n \<and> parent n = Some 0)
   \<and> (\<exists>h'.
        make_unique (\<lambda>h' p. XmlNode_copy (Suc (Suc 0)) h' p 1) ex_heap = Some (h', 4)
        \<and> cells ex_heap 4 = None
        \<and> cells h' 4 = Some \<lparr>name = ''message'', parent = None,
                             attributes = map_assign map_empty ''to'' ''u@h'', children = [5],
                             inner = [], tail = []\<rparr>
        \<and> cells h' 5 = Some \<lparr>name = ''body'', parent = Some 4, attributes = map_empty,
                             children = [], inner = ''hi'', tail = []\<rparr>
        \<and> subtree (Suc (Suc 0)) h' 4 = Some ex_tree
        \<and> cells h' 1 = cells ex_heap 1
        \<and> subtree (Suc (Suc 0)) h' 1 = Some ex_tree
        \<and> (\<exists>h''. call_on h' 4 (\<lambda>n. set_attribute n ''to'' ''v@h'') = Some h''
               \<and> cells h'' 1 = cells ex_heap 1
               \<and> subtree (Suc (Suc 0)) h'' 1 = Some ex_tree)
        \<and> (\<exists>h''. call_on h' 1 (\<lambda>n. set_attribute n ''to'' ''v@h'') = Some h''
               \<and> cells h'' 4 = cells h' 4
               \<and> subtree (Suc (Suc 0)) h'' 4 = Some ex_tree))"
proof -
  have attached: "\<exists>n. cells ex_heap 1 = Some n \<and> parent n = Some 0"
    using ex_heap_cells(2) by simp
  have there: "cells ex_heap 1 \<noteq> None" using ex_heap_cells(2) by simp
  have fresh: "cells ex_heap 4 = None" by (simp add: ex_heap_def)
  from ex_copy_evaluates obtain h'
    where run: "make_unique (\<lambda>h' p. XmlNode_copy (Suc (Suc 0)) h' p 1) ex_heap = Some (h', 4)"
      and new: "cells h' 4 = Some \<lparr>name = ''message'', parent = None,
          attributes = map_assign map_empty ''to'' ''u@h'', children = [5],
          inner = [], tail = []\<rparr>"
        "cells h' 5 = Some \<lparr>name = ''body'', parent = Some 4, attributes = map_empty,
          children = [], inner = ''hi'', tail = []\<rparr>"
    by blast
  from copy_is_deep_and_detached [OF ex_heap_ok ex_heap_message order_refl]
  obtain h2 cp where run2: "make_unique (\<lambda>h' p. XmlNode_copy (Suc (Suc 0)) h' p 1) ex_heap
        = Some (h2, cp)"
    and deep: "subtree (Suc (Suc 0)) h2 cp = Some ex_tree"
    and old: "\<forall>b. cells ex_heap b \<noteq> None \<longrightarrow> cells h2 b = cells ex_heap b"
    and orig: "subtree (Suc (Suc 0)) h2 1 = Some ex_tree"
    and m_copy: "\<forall>b f h''. cells ex_heap b = None \<and> call_on h2 b f = Some h''
        \<longrightarrow> (\<forall>a. cells ex_heap a \<noteq> None \<longrightarrow> cells h'' a = cells ex_heap a)
          \<and> subtree (Suc (Suc 0)) h'' 1 = Some ex_tree"
    and m_orig: "\<forall>b f h''. cells ex_heap b \<noteq> None \<and> call_on h2 b f = Some h''
        \<longrightarrow> (\<forall>a. cells ex_heap a = None \<longrightarrow> cells h'' a = cells h2 a)
          \<and> subtree (Suc (Suc 0)) h'' cp = Some ex_tree"
    by (elim exE conjE)
  from run run2 have same: "h2 = h'" "cp = 4" by simp_all
  from deep old orig there
  have kept: "subtree (Suc (Suc 0)) h' 4 = Some ex_tree" "cells h' 1 = cells ex_heap 1"
    "subtree (Suc (Suc 0)) h' 1 = Some ex_tree"
    unfolding same by blast+
  have on_copy: "cells h'' 1 = cells ex_heap 1 \<and> subtree (Suc (Suc 0)) h'' 1 = Some ex_tree"
    if "call_on h' 4 f = Some h''" for f h''
    using m_copy that fresh there unfolding same by blast
  have on_orig: "cells h'' 4 = cells h' 4 \<and> subtree (Suc (Suc 0)) h'' 4 = Some ex_tree"
    if "call_on h' 1 f = Some h''" for f h''
    using m_orig that fresh there unfolding same by blast
  from new(1) obtain h4 where 4: "call_on h' 4 (\<lambda>n. set_attribute n ''to'' ''v@h'') = Some h4"
    by (simp add: call_on_def)
  from kept(2) there obtain h1 where 1: "call_on h' 1 (\<lambda>n. set_attribute n ''to'' ''v@h'') = Some h1"
    by (auto simp: call_on_def)
  from on_copy [OF 4] 4
  have a: "\<exists>h''. call_on h' 4 (\<lambda>n. set_attribute n ''to'' ''v@h'') = Some h''
      \<and> cells h'' 1 = cells ex_heap 1 \<and> subtree (Suc (Suc 0)) h'' 1 = Some ex_tree"
    by blast
  from on_orig [OF 1] 1
  have b: "\<exists>h''. call_on h' 1 (\<lambda>n. set_attribute n ''to'' ''v@h'') = Some h''
      \<and> cells h'' 4 = cells h' 4 \<and> subtree (Suc (Suc 0)) h'' 4 = Some ex_tree"
    by blast
  from ex_heap_ok ex_heap_message attached run fresh new kept a b show ?thesis by blast
qed

subsection \<open>The allocation invariant\<close>

text \<open>
  \<open>heap_ok\<close> holds of the empty heap and is kept by every operation of the model, so
  it holds of every heap that the operations build.
\<close>

lemma heap_ok_empty: "heap_ok \<lparr>cells = Map.empty, next_free = 0\<rparr>"
  by (simp add: heap_ok_def)

lemma heap_ok_call_on: "heap_ok h \<Longrightarrow> call_on h this f = Some h' \<Longrightarrow> heap_ok h'"
  by (auto simp: heap_ok_def call_on_def split: option.splits if_splits)

lemma heap_ok_add_child:
  "heap_ok h \<Longrightarrow> add_child h this child = Some (h', r) \<Longrightarrow> heap_ok h'"
  by (auto simp: heap_ok_def add_child_def Let_def split: option.splits if_splits)

lemma heap_ok_add_child_move:
  "heap_ok h \<Longrightarrow> add_child_move h this child = Some (h', r) \<Longrightarrow> heap_ok h'"
proof -
  assume ok: "heap_ok h" and run: "add_child_move h this child = Some (h', r)"
  then obtain c where c: "cells h child = Some c"
    by (auto simp: add_child_move_def make_unique_def XmlNode_move_def Let_def split: option.splits)
  let ?p = "next_free h"
  let ?h1 = "h\<lparr>next_free := Suc ?p, cells := (cells h)(child \<mapsto> moved_from c, ?p \<mapsto> c)\<rparr>"
  from ok c have "child < ?p" by (simp add: heap_ok_below)
  with ok have "heap_ok ?h1" by (auto simp: heap_ok_def)
  moreover from run c have "add_child ?h1 this ?p = Some (h', r)"
    by (simp add: add_child_move_def make_unique_def XmlNode_move_def Let_def)
  ultimately show ?thesis by (rule heap_ok_add_child)
qed

lemma heap_ok_XmlSubNode_ctor:
  "heap_ok h \<Longrightarrow> heap_ok (fst (XmlSubNode_ctor h P nm))"
  "heap_ok h \<Longrightarrow> heap_ok (fst (XmlSubNode_ctor_ns h P xmlns nm))"
  by (auto simp: heap_ok_def XmlSubNode_ctor_def XmlSubNode_ctor_ns_def Let_def)

lemma heap_ok_XmlSubNode_dtor:
  "heap_ok h \<Longrightarrow> XmlSubNode_dtor h s = Some h' \<Longrightarrow> heap_ok h'"
proof -
  assume ok: "heap_ok h" and run: "XmlSubNode_dtor h s = Some h'"
  then obtain h1 r where mv: "add_child_move h (parent_to_add s) (node_addr s) = Some (h1, r)"
    and h': "h' = h1\<lparr>cells := (cells h1)(node_addr s := None)\<rparr>"
    by (auto simp: XmlSubNode_dtor_def split: option.splits)
  from heap_ok_add_child_move [OF ok mv] have "heap_ok h1" .
  with h' show ?thesis by (auto simp: heap_ok_def)
qed


lemma add_child_next_free:
  "add_child h this child = Some (h', r) \<Longrightarrow> next_free h' = next_free h"
  by (auto simp: add_child_def Let_def split: option.splits)

lemma heap_ok_copy_children:
  assumes cp: "\<And>s p c s'. heap_ok s \<Longrightarrow> p < next_free s \<Longrightarrow> cp s p c = Some s'
      \<Longrightarrow> heap_ok s' \<and> next_free s \<le> next_free s'"
  shows "heap_ok s \<Longrightarrow> copy_children cp s this cs = Some s'
    \<Longrightarrow> heap_ok s' \<and> next_free s \<le> next_free s'"
proof (induction cs arbitrary: s)
  case Nil
  then show ?case by simp
next
  case (Cons c cs)
  let ?p = "next_free s"
  let ?sb = "s\<lparr>next_free := Suc ?p\<rparr>"
  from Cons.prems(2) obtain s1 s2 r where s1: "cp ?sb ?p c = Some s1"
    and s2: "add_child s1 this ?p = Some (s2, r)"
    and rest: "copy_children cp s2 this cs = Some s'"
    by (auto simp: make_unique_def Let_def split: option.splits)
  from Cons.prems(1) have "heap_ok ?sb" by (simp add: heap_ok_def)
  from cp [OF this _ s1] have ok1: "heap_ok s1" and nf1: "Suc ?p \<le> next_free s1" by simp_all
  from heap_ok_add_child [OF ok1 s2] have ok2: "heap_ok s2" .
  from add_child_next_free [OF s2] nf1 have nf2: "?p \<le> next_free s2" by simp
  from Cons.IH [OF ok2 rest] nf2 show ?case by simp
qed

lemma heap_ok_XmlNode_copy:
  "heap_ok s \<Longrightarrow> this < next_free s \<Longrightarrow> XmlNode_copy fuel s this node = Some s'
     \<Longrightarrow> heap_ok s' \<and> next_free s \<le> next_free s'"
proof (induction fuel arbitrary: s this node s')
  case 0
  then show ?case by simp
next
  case (Suc fuel)
  from Suc.prems(3) obtain n where n: "cells s node = Some n"
    and run: "copy_children (XmlNode_copy fuel)
        (s\<lparr>cells := (cells s)(this \<mapsto> \<lparr>name = name n, parent = None, attributes = attributes n,
          children = [], inner = inner n, tail = tail n\<rparr>)\<rparr>) this (children n) = Some s'"
    by (auto split: option.splits)
  let ?si = "s\<lparr>cells := (cells s)(this \<mapsto> \<lparr>name = name n, parent = None,
      attributes = attributes n, children = [], inner = inner n, tail = tail n\<rparr>)\<rparr>"
  from Suc.prems(1,2) have "heap_ok ?si" by (auto simp: heap_ok_def)
  from heap_ok_copy_children [of "XmlNode_copy fuel", OF Suc.IH this run]
  show ?case by simp
qed

lemma heap_ok_add_child_copy:
  "heap_ok h \<Longrightarrow> add_child_copy fuel h this child = Some (h', r) \<Longrightarrow> heap_ok h'"
proof -
  assume ok: "heap_ok h" and run: "add_child_copy fuel h this child = Some (h', r)"
  let ?p = "next_free h"
  from run obtain h1 where cp: "XmlNode_copy fuel (h\<lparr>next_free := Suc ?p\<rparr>) ?p child = Some h1"
    and add: "add_child h1 this ?p = Some (h', r)"
    by (auto simp: add_child_copy_def make_unique_def Let_def split: option.splits)
  from ok have "heap_ok (h\<lparr>next_free := Suc ?p\<rparr>)" by (simp add: heap_ok_def)
  from heap_ok_XmlNode_copy [OF this _ cp] have "heap_ok h1" by simp
  from heap_ok_add_child [OF this add] show ?thesis .
qed

subsection \<open>Attaching a child\<close>

lemma add_child_attaches:
  assumes t: "cells h this = Some t" and c: "cells h child = Some c"
  shows "\<exists>h' c' t'. add_child h this child = Some (h', child)
           \<and> cells h' child = Some c' \<and> parent c' = Some this
           \<and> c'\<lparr>parent := parent c, children := children c\<rparr> = c
           \<and> cells h' this = Some t' \<and> children t' = children t @ [child]
           \<and> (\<forall>b. b \<noteq> this \<and> b \<noteq> child \<longrightarrow> cells h' b = cells h b)
           \<and> next_free h' = next_free h"
proof (cases "child = this")
  case True
  with t c have "t = c" by simp
  with True t c show ?thesis by (simp add: add_child_def)
next
  case False
  with t c show ?thesis by (simp add: add_child_apart)
qed

lemma add_child_move_attaches:
  assumes ok: "heap_ok h" and t: "cells h this = Some t" and c: "cells h child = Some c"
  shows "\<exists>h' r t'. add_child_move h this child = Some (h', r)
           \<and> cells h r = None
           \<and> cells h' r = Some (c\<lparr>parent := Some this\<rparr>)
           \<and> cells h' this = Some t' \<and> children t' \<noteq> [] \<and> last (children t') = r
           \<and> (child \<noteq> this \<longrightarrow> children t' = children t @ [r])
           \<and> (child \<noteq> this \<longrightarrow> cells h' child = Some (moved_from c))"
proof -
  let ?p = "next_free h"
  from ok t c have lt: "this < ?p" "child < ?p" by (simp_all add: heap_ok_below)
  from ok have fresh: "cells h ?p = None" by (simp add: heap_ok_def)
  define h1 where "h1 = h\<lparr>next_free := Suc ?p,
      cells := (cells h)(child \<mapsto> moved_from c, ?p \<mapsto> c)\<rparr>"
  have mk: "make_unique (\<lambda>h' p. XmlNode_move h' p child) h = Some (h1, ?p)"
    using c by (simp add: make_unique_def XmlNode_move_def h1_def Let_def)
  define t1 where "t1 = (if this = child then moved_from c else t)"
  from lt t have this1: "cells h1 this = Some t1" by (auto simp: h1_def t1_def)
  have new1: "cells h1 ?p = Some c" by (simp add: h1_def)
  from lt have ne: "?p \<noteq> this" "?p \<noteq> child" by simp_all
  with this1 new1 have add: "add_child h1 this ?p =
      Some (h1\<lparr>cells := (cells h1)(?p \<mapsto> c\<lparr>parent := Some this\<rparr>,
                                  this \<mapsto> t1\<lparr>children := children t1 @ [?p]\<rparr>)\<rparr>, ?p)"
    by (simp add: add_child_apart)
  let ?h' = "h1\<lparr>cells := (cells h1)(?p \<mapsto> c\<lparr>parent := Some this\<rparr>,
      this \<mapsto> t1\<lparr>children := children t1 @ [?p]\<rparr>)\<rparr>"
  have "add_child_move h this child = Some (?h', ?p)"
    using mk add by (simp add: add_child_move_def)
  moreover have "cells ?h' ?p = Some (c\<lparr>parent := Some this\<rparr>)" using ne by simp
  moreover have "cells ?h' this = Some (t1\<lparr>children := children t1 @ [?p]\<rparr>)" by simp
  moreover have "child \<noteq> this \<longrightarrow> children (t1\<lparr>children := children t1 @ [?p]\<rparr>) = children t @ [?p]"
    by (auto simp: t1_def)
  moreover have "child \<noteq> this \<longrightarrow> cells ?h' child = Some (moved_from c)"
    using ne by (auto simp: h1_def)
  ultimately show ?thesis using fresh by auto
qed

lemma add_child_copy_attaches:
  assumes ok: "heap_ok h" and t: "cells h this = Some t" and sub: "subtree d h child = Some tr"
    and fuel: "d \<le> fuel"
  shows "\<exists>h' r c' t'. add_child_copy fuel h this child = Some (h', r)
           \<and> cells h r = None
           \<and> cells h' r = Some c' \<and> parent c' = Some this
           \<and> subtree d h' r = Some tr
           \<and> cells h' this = Some t' \<and> children t' = children t @ [r]
           \<and> (\<forall>b. cells h b \<noteq> None \<and> b \<noteq> this \<longrightarrow> cells h' b = cells h b)"
proof -
  let ?p = "next_free h"
  from make_unique_copy_frame [OF ok sub fuel] obtain h1 n'
    where run: "make_unique (\<lambda>h' p. XmlNode_copy fuel h' p child) h = Some (h1, ?p)"
      and old: "\<forall>b<?p. cells h1 b = cells h b"
      and n': "cells h1 ?p = Some n'" "parent n' = None"
      and closed: "\<forall>b\<ge>?p. \<forall>n. cells h1 b = Some n \<longrightarrow> (\<forall>c\<in>set (children n). ?p \<le> c)"
      and copy: "subtree d h1 ?p = Some tr"
    by blast
  from ok t have lt: "this < ?p" by (simp add: heap_ok_below)
  with old t have this1: "cells h1 this = Some t" by simp
  from lt have ne: "?p \<noteq> this" by simp
  define h2 where "h2 = h1\<lparr>cells := (cells h1)(?p \<mapsto> n'\<lparr>parent := Some this\<rparr>,
      this \<mapsto> t\<lparr>children := children t @ [?p]\<rparr>)\<rparr>"
  from this1 n'(1) ne have add: "add_child h1 this ?p = Some (h2, ?p)"
    by (simp add: add_child_apart h2_def)
  have "add_child_copy fuel h this child = Some (h2, ?p)"
    using run add by (simp add: add_child_copy_def)
  moreover from ok have "cells h ?p = None" by (simp add: heap_ok_def)
  moreover have "cells h2 ?p = Some (n'\<lparr>parent := Some this\<rparr>)" using ne by (simp add: h2_def)
  moreover have "subtree d h2 ?p = Some tr"
  proof (rule subtree_frame [where R = "{a. ?p \<le> a}" and h = h1])
    show "subtree d h1 ?p = Some tr" by (rule copy)
    show "?p \<in> {a. ?p \<le> a}" by simp
  next
    fix a n assume a: "a \<in> {a. ?p \<le> a}" and n: "cells h1 a = Some n"
    from a lt have "a \<noteq> this" by auto
    with n n'(1) have "\<exists>m. cells h2 a = Some m \<and> m\<lparr>parent := parent n\<rparr> = n"
      by (cases "a = ?p") (auto simp: h2_def)
    moreover from closed a n have "set (children n) \<subseteq> {a. ?p \<le> a}" by auto
    ultimately show "set (children n) \<subseteq> {a. ?p \<le> a}
        \<and> (\<exists>n'. cells h2 a = Some n' \<and> n'\<lparr>parent := parent n\<rparr> = n)"
      by simp
  qed
  moreover have "cells h2 this = Some (t\<lparr>children := children t @ [?p]\<rparr>)"
    by (simp add: h2_def)
  moreover have "\<forall>b. cells h b \<noteq> None \<and> b \<noteq> this \<longrightarrow> cells h2 b = cells h b"
  proof (intro allI impI)
    fix b assume b: "cells h b \<noteq> None \<and> b \<noteq> this"
    with ok have "b < ?p" by (simp add: heap_ok_below)
    with b old show "cells h2 b = cells h b" by (simp add: h2_def)
  qed
  ultimately show ?thesis by simp
qed

text \<open>
  C3: each of the three forms of \<^verbatim>\<open>add_child\<close> returns the attached child, whose
  parent pointer is \<open>this\<close> afterwards and which is the last element of the child list
  of \<open>this\<close>, the list before with the child appended. The owned handle attaches the
  object given; the move attaches a new object that holds what the argument held; the copy
  (with any fuel from \<open>d\<close> on, for a subtree nested no deeper than \<open>d\<close>) attaches a new
  object below which the heap holds the same tree as below the argument. For the move, the
  list is the old one extended when the argument is another object than \<open>this\<close>.
\<close>

theorem add_child_appends_and_sets_parent:
  "(cells h this = Some t \<and> cells h child = Some c
      \<longrightarrow> (\<exists>h' c' t'. add_child h this child = Some (h', child)
             \<and> cells h' child = Some c' \<and> parent c' = Some this
             \<and> cells h' this = Some t' \<and> children t' = children t @ [child]
             \<and> last (children t') = child))
   \<and> (heap_ok h \<and> cells h this = Some t \<and> cells h child = Some c
      \<longrightarrow> (\<exists>h' r c' t'. add_child_move h this child = Some (h', r)
             \<and> cells h r = None \<and> cells h' r = Some c' \<and> parent c' = Some this
             \<and> c' = c\<lparr>parent := Some this\<rparr>
             \<and> cells h' this = Some t' \<and> children t' \<noteq> [] \<and> last (children t') = r
             \<and> (child \<noteq> this \<longrightarrow> children t' = children t @ [r])))
   \<and> (heap_ok h \<and> cells h this = Some t \<and> subtree d h child = Some tr \<and> d \<le> fuel
      \<longrightarrow> (\<exists>h' r c' t'. add_child_copy fuel h this child = Some (h', r)
             \<and> cells h r = None \<and> cells h' r = Some c' \<and> parent c' = Some this
             \<and> subtree d h' r = Some tr
             \<and> cells h' this = Some t' \<and> children t' = children t @ [r]
             \<and> last (children t') = r))"
proof (intro conjI impI)
  assume "cells h this = Some t \<and> cells h child = Some c"
  then have "cells h this = Some t" "cells h child = Some c" by simp_all
  from add_child_attaches [OF this] obtain h' c' t'
    where "add_child h this child = Some (h', child)" "cells h' child = Some c'"
      "parent c' = Some this" "cells h' this = Some t'" "children t' = children t @ [child]"
    by blast
  then show "\<exists>h' c' t'. add_child h this child = Some (h', child)
             \<and> cells h' child = Some c' \<and> parent c' = Some this
             \<and> cells h' this = Some t' \<and> children t' = children t @ [child]
             \<and> last (children t') = child"
    by simp
next
  assume "heap_ok h \<and> cells h this = Some t \<and> cells h child = Some c"
  then have "heap_ok h" "cells h this = Some t" "cells h child = Some c" by simp_all
  from add_child_move_attaches [OF this] obtain h' r t'
    where "add_child_move h this child = Some (h', r)" "cells h r = None"
      "cells h' r = Some (c\<lparr>parent := Some this\<rparr>)" "cells h' this = Some t'"
      "children t' \<noteq> []" "last (children t') = r"
      "child \<noteq> this \<longrightarrow> children t' = children t @ [r]"
    by blast
  then show "\<exists>h' r c' t'. add_child_move h this child = Some (h', r)
             \<and> cells h r = None \<and> cells h' r = Some c' \<and> parent c' = Some this
             \<and> c' = c\<lparr>parent := Some this\<rparr>
             \<and> cells h' this = Some t' \<and> children t' \<noteq> [] \<and> last (children t') = r
             \<and> (child \<noteq> this \<longrightarrow> children t' = children t @ [r])"
    by simp
next
  assume "heap_ok h \<and> cells h this = Some t \<and> subtree d h child = Some tr \<and> d \<le> fuel"
  then have "heap_ok h" "cells h this = Some t" "subtree d h child = Some tr" "d \<le> fuel"
    by simp_all
  from add_child_copy_attaches [OF this] obtain h' r c' t'
    where "add_child_copy fuel h this child = Some (h', r)" "cells h r = None"
      "cells h' r = Some c'" "parent c' = Some this" "subtree d h' r = Some tr"
      "cells h' this = Some t'" "children t' = children t @ [r]"
    by blast
  then show "\<exists>h' r c' t'. add_child_copy fuel h this child = Some (h', r)
             \<and> cells h r = None \<and> cells h' r = Some c' \<and> parent c' = Some this
             \<and> subtree d h' r = Some tr
             \<and> cells h' this = Some t' \<and> children t' = children t @ [r]
             \<and> last (children t') = r"
    by simp
qed

text \<open>The three calls on the example heap, computed.\<close>

lemma ex_add_child_evaluates:
  "\<exists>h'. add_child ex_heap 1 3 = Some (h', 3)
     \<and> cells h' 3 = Some \<lparr>name = ''extra'', parent = Some 1, attributes = map_empty,
                          children = [], inner = [], tail = []\<rparr>
     \<and> cells h' 1 = Some \<lparr>name = ''message'', parent = Some 0,
                          attributes = map_assign map_empty ''to'' ''u@h'', children = [2, 3],
                          inner = [], tail = []\<rparr>"
  by (simp add: ex_heap_def add_child_def Let_def)

lemma ex_add_child_move_evaluates:
  "\<exists>h'. add_child_move ex_heap 1 3 = Some (h', 4)
     \<and> cells h' 4 = Some \<lparr>name = ''extra'', parent = Some 1, attributes = map_empty,
                          children = [], inner = [], tail = []\<rparr>
     \<and> cells h' 1 = Some \<lparr>name = ''message'', parent = Some 0,
                          attributes = map_assign map_empty ''to'' ''u@h'', children = [2, 4],
                          inner = [], tail = []\<rparr>"
  by (simp add: ex_heap_def add_child_move_def make_unique_def XmlNode_move_def add_child_def
      Let_def)

lemma ex_add_child_copy_evaluates:
  "\<exists>h'. add_child_copy (Suc (Suc 0)) ex_heap 0 1 = Some (h', 4)
     \<and> cells h' 4 = Some \<lparr>name = ''message'', parent = Some 0,
                          attributes = map_assign map_empty ''to'' ''u@h'', children = [5],
                          inner = [], tail = []\<rparr>
     \<and> cells h' 0 = Some \<lparr>name = ''stream'', parent = None, attributes = map_empty,
                          children = [1, 4], inner = [], tail = []\<rparr>"
  by (simp add: ex_heap_def add_child_copy_def make_unique_def add_child_def Let_def)

theorem add_child_appends_and_sets_parent_witness:
  "heap_ok ex_heap
   \<and> (\<exists>t. cells ex_heap 1 = Some t \<and> children t = [2])
   \<and> (\<exists>c. cells ex_heap 3 = Some c)
   \<and> subtree (Suc (Suc 0)) ex_heap 1 = Some ex_tree
   \<and> (\<exists>h' c' t'. add_child ex_heap 1 3 = Some (h', 3)
         \<and> cells h' 3 = Some c' \<and> parent c' = Some 1
         \<and> cells h' 1 = Some t' \<and> children t' = [2, 3] \<and> last (children t') = 3)
   \<and> (\<exists>h' c' t'. add_child_move ex_heap 1 3 = Some (h', 4)
         \<and> cells ex_heap 4 = None \<and> cells h' 4 = Some c' \<and> parent c' = Some 1
         \<and> cells h' 1 = Some t' \<and> children t' = [2, 4] \<and> last (children t') = 4)
   \<and> (\<exists>h' c' t'. add_child_copy (Suc (Suc 0)) ex_heap 0 1 = Some (h', 4)
         \<and> cells ex_heap 4 = None \<and> cells h' 4 = Some c' \<and> parent c' = Some 0
         \<and> subtree (Suc (Suc 0)) h' 4 = Some ex_tree
         \<and> cells h' 0 = Some t' \<and> children t' = [1, 4] \<and> last (children t') = 4)"
proof -
  let ?t0 = "\<lparr>name = ''stream'', parent = None, attributes = map_empty,
      children = [1], inner = [], tail = []\<rparr>"
  let ?t1 = "\<lparr>name = ''message'', parent = Some 0,
      attributes = map_assign map_empty ''to'' ''u@h'', children = [2], inner = [], tail = []\<rparr>"
  let ?c3 = "\<lparr>name = ''extra'', parent = None, attributes = map_empty,
      children = [], inner = [], tail = []\<rparr>"
  have a: "\<exists>t. cells ex_heap 1 = Some t \<and> children t = [2]"
    and b: "\<exists>c. cells ex_heap 3 = Some c"
    using ex_heap_cells by simp_all
  have three: "(3::nat) \<noteq> 1" by simp
  note T = add_child_appends_and_sets_parent [of ex_heap 1 ?t1 3 ?c3 0 ex_tree 0]
  from T ex_heap_cells(2,3)
  have "\<exists>h' c' t'. add_child ex_heap 1 3 = Some (h', 3)
         \<and> cells h' 3 = Some c' \<and> parent c' = Some 1
         \<and> cells h' 1 = Some t' \<and> children t' = children ?t1 @ [3]
         \<and> last (children t') = 3"
    by blast
  then have 1: "\<exists>h' c' t'. add_child ex_heap 1 3 = Some (h', 3)
         \<and> cells h' 3 = Some c' \<and> parent c' = Some 1
         \<and> cells h' 1 = Some t' \<and> children t' = [2, 3] \<and> last (children t') = 3"
    by simp
  from ex_add_child_move_evaluates obtain hm
    where moved: "add_child_move ex_heap 1 3 = Some (hm, 4)" by blast
  from T ex_heap_cells(2,3) ex_heap_ok three
  have "\<exists>h' r c' t'. add_child_move ex_heap 1 3 = Some (h', r)
         \<and> cells ex_heap r = None \<and> cells h' r = Some c' \<and> parent c' = Some 1
         \<and> cells h' 1 = Some t' \<and> children t' = children ?t1 @ [r]
         \<and> last (children t') = r"
    by blast
  with moved have 2: "\<exists>h' c' t'. add_child_move ex_heap 1 3 = Some (h', 4)
         \<and> cells ex_heap 4 = None \<and> cells h' 4 = Some c' \<and> parent c' = Some 1
         \<and> cells h' 1 = Some t' \<and> children t' = [2, 4] \<and> last (children t') = 4"
    by auto
  from ex_add_child_copy_evaluates obtain hc
    where copied: "add_child_copy (Suc (Suc 0)) ex_heap 0 1 = Some (hc, 4)" by blast
  note T' = add_child_appends_and_sets_parent
    [of ex_heap 0 ?t0 1 ?t1 "Suc (Suc 0)" ex_tree "Suc (Suc 0)"]
  from T' ex_heap_cells(1) ex_heap_ok ex_heap_message
  have "\<exists>h' r c' t'. add_child_copy (Suc (Suc 0)) ex_heap 0 1 = Some (h', r)
         \<and> cells ex_heap r = None \<and> cells h' r = Some c' \<and> parent c' = Some 0
         \<and> subtree (Suc (Suc 0)) h' r = Some ex_tree
         \<and> cells h' 0 = Some t' \<and> children t' = children ?t0 @ [r]
         \<and> last (children t') = r"
    by blast
  with copied have 3: "\<exists>h' c' t'. add_child_copy (Suc (Suc 0)) ex_heap 0 1 = Some (h', 4)
         \<and> cells ex_heap 4 = None \<and> cells h' 4 = Some c' \<and> parent c' = Some 0
         \<and> subtree (Suc (Suc 0)) h' 4 = Some ex_tree
         \<and> cells h' 0 = Some t' \<and> children t' = [1, 4] \<and> last (children t') = 4"
    by (auto simp del: subtree.simps)
  from ex_heap_ok a b ex_heap_message 1 2 3 show ?thesis by blast
qed

subsection \<open>The scoped builder\<close>

text \<open>
  C4: a block declares an \<^verbatim>\<open>XmlSubNode\<close> for a parent \<open>P\<close>, by either
  constructor, and its body leaves the block in any way \<open>how\<close>: by reaching the end, by
  a return or by an exception. If \<open>P\<close> and the helper are still alive then, the
  destructor moves the helper into \<open>P.add_child\<close>: a new object \<open>r\<close> holds what had
  been built, its parent pointer is \<open>P\<close>, it is the last child of \<open>P\<close>, appended to
  the children \<open>P\<close> had at that point, and the helper is gone. The way the block was
  left is passed on unchanged.
\<close>

theorem subnode_scope_attaches_on_every_exit:
  assumes ok: "heap_ok h" and P: "cells h P \<noteq> None"
    and made: "made = XmlSubNode_ctor h P nm \<or> made = XmlSubNode_ctor_ns h P xmlns nm"
    and body: "body (snd made) (fst made) = (how, h1)"
    and ok1: "heap_ok h1" and P1: "cells h1 P = Some p1"
    and built: "cells h1 (node_addr (snd made)) = Some built"
  shows "\<exists>h2 r p2. subnode_scope made body = Some (how, h2)
           \<and> cells h1 r = None \<and> cells h2 r = Some (built\<lparr>parent := Some P\<rparr>)
           \<and> cells h2 P = Some p2 \<and> children p2 = children p1 @ [r]
           \<and> last (children p2) = r
           \<and> cells h2 (node_addr (snd made)) = None"
proof -
  obtain h0 s where hs: "made = (h0, s)" by (cases made)
  from made hs have s: "node_addr s = next_free h" "parent_to_add s = P"
    by (auto simp: XmlSubNode_ctor_def XmlSubNode_ctor_ns_def Let_def)
  from ok P have "P < next_free h" by (rule heap_ok_below)
  with s have ne: "node_addr s \<noteq> P" by simp
  from built hs have b: "cells h1 (node_addr s) = Some built" by simp
  from add_child_move_attaches [OF ok1 P1 b] ne obtain h' r p2
    where mv: "add_child_move h1 P (node_addr s) = Some (h', r)"
      and fresh: "cells h1 r = None"
      and r: "cells h' r = Some (built\<lparr>parent := Some P\<rparr>)"
      and p2: "cells h' P = Some p2" "children p2 = children p1 @ [r]"
    by auto
  from fresh b have "r \<noteq> node_addr s" by auto
  let ?h2 = "h'\<lparr>cells := (cells h')(node_addr s := None)\<rparr>"
  from mv s have "XmlSubNode_dtor h1 s = Some ?h2" by (simp add: XmlSubNode_dtor_def)
  with body hs have "subnode_scope made body = Some (how, ?h2)"
    by (simp add: subnode_scope_def)
  moreover from r \<open>r \<noteq> node_addr s\<close> have "cells ?h2 r = Some (built\<lparr>parent := Some P\<rparr>)"
    by simp
  moreover from p2 ne have "cells ?h2 P = Some p2" by simp
  moreover have "cells ?h2 (node_addr s) = None" by simp
  ultimately show ?thesis using fresh p2(2) hs by auto
qed


lemma ex_made:
  "XmlSubNode_ctor ex_heap 0 ''presence'' = (ex_scope_heap, \<lparr>node_addr = 4, parent_to_add = 0\<rparr>)"
  by (simp add: XmlSubNode_ctor_def ex_scope_heap_def ex_heap_def)

lemma ex_scope_heap_ok: "heap_ok ex_scope_heap"
  by (auto simp: heap_ok_def ex_scope_heap_def ex_heap_def)

lemma ex_scope_heap_cells:
  "cells ex_scope_heap 0 = Some \<lparr>name = ''stream'', parent = None, attributes = map_empty,
      children = [1], inner = [], tail = []\<rparr>"
  "cells ex_scope_heap 4 = Some (XmlNode_ctor ''presence'' None)"
  by (simp_all add: ex_scope_heap_def ex_heap_def)

text \<open>The three blocks on the example heap, computed: the new object is at \<open>5\<close>.\<close>

lemma ex_scope_evaluates:
  "(\<exists>h2. subnode_scope (XmlSubNode_ctor ex_heap 0 ''presence'') body_falls_through
          = Some (Fallthrough, h2))
   \<and> (\<exists>h2. subnode_scope (XmlSubNode_ctor ex_heap 0 ''presence'') body_returns_early
          = Some (Return True, h2)
        \<and> cells h2 5 = Some \<lparr>name = ''presence'', parent = Some 0, attributes = map_empty,
                             children = [], inner = ''away'', tail = []\<rparr>
        \<and> cells h2 0 = Some \<lparr>name = ''stream'', parent = None, attributes = map_empty,
                             children = [1, 5], inner = [], tail = []\<rparr>
        \<and> cells h2 4 = None)
   \<and> (\<exists>h2. subnode_scope (XmlSubNode_ctor ex_heap 0 ''presence'') body_throws
          = Some (Throw ''failure'', h2))"
  by (simp add: subnode_scope_def XmlSubNode_ctor_def XmlSubNode_dtor_def body_returns_early_def
      body_falls_through_def body_throws_def
      call_on_def ex_heap_def add_child_move_def make_unique_def XmlNode_move_def add_child_def
      XmlNode_ctor_def rfind_def set_inner_def Let_def)

theorem subnode_scope_attaches_on_every_exit_witness:
  "heap_ok ex_heap \<and> cells ex_heap 0 \<noteq> None
   \<and> (\<exists>h2 r p2.
        subnode_scope (XmlSubNode_ctor ex_heap 0 ''presence'') body_falls_through
          = Some (Fallthrough, h2)
        \<and> cells h2 r = Some ((XmlNode_ctor ''presence'' None)\<lparr>parent := Some 0\<rparr>)
        \<and> cells h2 0 = Some p2 \<and> children p2 = [1, r] \<and> cells h2 4 = None)
   \<and> (\<exists>h2 r p2.
        subnode_scope (XmlSubNode_ctor ex_heap 0 ''presence'') body_returns_early
          = Some (Return True, h2)
        \<and> cells h2 r = Some ((set_inner (XmlNode_ctor ''presence'' None) ''away'')\<lparr>parent := Some 0\<rparr>)
        \<and> cells h2 0 = Some p2 \<and> children p2 = [1, r] \<and> cells h2 4 = None)
   \<and> (\<exists>h2 r p2.
        subnode_scope (XmlSubNode_ctor ex_heap 0 ''presence'') body_throws
          = Some (Throw ''failure'', h2)
        \<and> cells h2 r = Some ((XmlNode_ctor ''presence'' None)\<lparr>parent := Some 0\<rparr>)
        \<and> cells h2 0 = Some p2 \<and> children p2 = [1, r] \<and> cells h2 4 = None)"
proof -
  let ?made = "XmlSubNode_ctor ex_heap 0 ''presence''"
  let ?t0 = "\<lparr>name = ''stream'', parent = None, attributes = map_empty,
      children = [1], inner = [], tail = []\<rparr>"
  let ?built = "XmlNode_ctor ''presence'' None"
  have P: "cells ex_heap 0 \<noteq> None" by (simp add: ex_heap_def)
  have made: "?made = XmlSubNode_ctor ex_heap 0 ''presence''
      \<or> ?made = XmlSubNode_ctor_ns ex_heap 0 [] ''presence''"
    by simp
  have fst: "fst ?made = ex_scope_heap" and snd: "snd ?made = \<lparr>node_addr = 4, parent_to_add = 0\<rparr>"
    by (simp_all add: ex_made)
  have built: "cells ex_scope_heap (node_addr (snd ?made)) = Some ?built"
    by (simp add: snd ex_scope_heap_cells)
  \<comment> \<open>the body reaches its end\<close>
  have "body_falls_through (snd ?made) (fst ?made) = (Fallthrough, ex_scope_heap)"
    by (simp add: body_falls_through_def fst)
  from subnode_scope_attaches_on_every_exit
    [where body = body_falls_through and made = ?made,
      OF ex_heap_ok P made this ex_scope_heap_ok ex_scope_heap_cells(1) built]
  obtain h2 r p2 where "subnode_scope ?made body_falls_through = Some (Fallthrough, h2)"
    "cells h2 r = Some (?built\<lparr>parent := Some 0\<rparr>)" "cells h2 0 = Some p2"
    "children p2 = children ?t0 @ [r]" "cells h2 (node_addr (snd ?made)) = None"
    by blast
  then have 1: "\<exists>h2 r p2. subnode_scope ?made body_falls_through = Some (Fallthrough, h2)
        \<and> cells h2 r = Some (?built\<lparr>parent := Some 0\<rparr>)
        \<and> cells h2 0 = Some p2 \<and> children p2 = [1, r] \<and> cells h2 4 = None"
    by (intro exI [of _ h2] exI [of _ r] exI [of _ p2]) (simp add: snd)
  \<comment> \<open>the body throws\<close>
  have "body_throws (snd ?made) (fst ?made) = (Throw ''failure'', ex_scope_heap)"
    by (simp add: body_throws_def fst)
  from subnode_scope_attaches_on_every_exit
    [where body = body_throws and made = ?made,
      OF ex_heap_ok P made this ex_scope_heap_ok ex_scope_heap_cells(1) built]
  obtain h2 r p2 where "subnode_scope ?made body_throws = Some (Throw ''failure'', h2)"
    "cells h2 r = Some (?built\<lparr>parent := Some 0\<rparr>)" "cells h2 0 = Some p2"
    "children p2 = children ?t0 @ [r]" "cells h2 (node_addr (snd ?made)) = None"
    by blast
  then have 3: "\<exists>h2 r p2. subnode_scope ?made body_throws = Some (Throw ''failure'', h2)
        \<and> cells h2 r = Some (?built\<lparr>parent := Some 0\<rparr>)
        \<and> cells h2 0 = Some p2 \<and> children p2 = [1, r] \<and> cells h2 4 = None"
    by (intro exI [of _ h2] exI [of _ r] exI [of _ p2]) (simp add: snd)
  \<comment> \<open>the body changes the node and returns\<close>
  define h1 where "h1 = ex_scope_heap\<lparr>cells := (cells ex_scope_heap)(4 \<mapsto> set_inner ?built ''away'')\<rparr>"
  have ran: "body_returns_early (snd ?made) (fst ?made) = (Return True, h1)"
    by (simp add: body_returns_early_def fst snd call_on_def ex_scope_heap_cells h1_def)
  have ok1: "heap_ok h1"
    using ex_scope_heap_ok by (auto simp: heap_ok_def h1_def ex_scope_heap_def)
  have P1: "cells h1 0 = Some ?t0"
    using ex_scope_heap_cells(1) by (simp add: h1_def)
  have built1: "cells h1 (node_addr (snd ?made)) = Some (set_inner ?built ''away'')"
    by (simp add: snd h1_def)
  from subnode_scope_attaches_on_every_exit
    [where body = body_returns_early and made = ?made,
      OF ex_heap_ok P made ran ok1 P1 built1]
  obtain h2 r p2 where "subnode_scope ?made body_returns_early = Some (Return True, h2)"
    "cells h2 r = Some ((set_inner ?built ''away'')\<lparr>parent := Some 0\<rparr>)" "cells h2 0 = Some p2"
    "children p2 = children ?t0 @ [r]" "cells h2 (node_addr (snd ?made)) = None"
    by blast
  then have 2: "\<exists>h2 r p2. subnode_scope ?made body_returns_early = Some (Return True, h2)
        \<and> cells h2 r = Some ((set_inner ?built ''away'')\<lparr>parent := Some 0\<rparr>)
        \<and> cells h2 0 = Some p2 \<and> children p2 = [1, r] \<and> cells h2 4 = None"
    by (intro exI [of _ h2] exI [of _ r] exI [of _ p2]) (simp add: snd)
  from ex_heap_ok P 1 2 3 show ?thesis by blast
qed

end
